theory Spec2Isabelle
  imports Main "HOL-Library.Sublist"
begin

section \<open>Token kinds and the static registry\<close>

text \<open>
  The lexer of \<^verbatim>\<open>src/lexer/tokenized_buffer.cpp\<close> is driven by the X-macro table
  \<^verbatim>\<open>lexer/token_registry.def\<close> and by the methods of \<^verbatim>\<open>TokenKind\<close>; neither file is
  among the sources. The table is therefore a parameter of every definition below: a list
  of symbol entries (spelling, group role) and a list of keyword spellings, in the order
  of the table. A token kind is the enumerator generated from an entry, that is, its
  position in the table, or one of the four structural kinds.
\<close>

datatype GroupRole = NoGroup | OpeningGroup nat | ClosingGroup nat

record Registry =
  symbols :: "(string \<times> GroupRole) list"
  keyword_spellings :: "string list"

datatype TokenKind =
  Symbol nat | Keyword nat | Identifier | IntegerLiteral | DocComment | Error

text \<open>
  Modelled from the spec: the methods of \<^verbatim>\<open>TokenKind\<close> (declared in a header that is not
  among the sources). Each symbol tag declares whether it opens or closes a group and, if
  so, its partner tag; symbols and keywords have a fixed spelling, the structural kinds
  have none.
\<close>

definition GroupRoleOf :: "Registry \<Rightarrow> TokenKind \<Rightarrow> GroupRole" where
  "GroupRoleOf reg k =
     (case k of
        Symbol i \<Rightarrow> if i < length (symbols reg) then snd (symbols reg ! i) else NoGroup
      | _ \<Rightarrow> NoGroup)"

definition IsOpeningSymbol :: "Registry \<Rightarrow> TokenKind \<Rightarrow> bool" where
  "IsOpeningSymbol reg k = (case GroupRoleOf reg k of OpeningGroup _ \<Rightarrow> True | _ \<Rightarrow> False)"

definition IsClosingSymbol :: "Registry \<Rightarrow> TokenKind \<Rightarrow> bool" where
  "IsClosingSymbol reg k = (case GroupRoleOf reg k of ClosingGroup _ \<Rightarrow> True | _ \<Rightarrow> False)"

definition GetClosingSymbol :: "Registry \<Rightarrow> TokenKind \<Rightarrow> TokenKind" where
  "GetClosingSymbol reg k = (case GroupRoleOf reg k of OpeningGroup j \<Rightarrow> Symbol j | _ \<Rightarrow> Error)"

definition GetFixedSpelling :: "Registry \<Rightarrow> TokenKind \<Rightarrow> string" where
  "GetFixedSpelling reg k =
     (case k of
        Symbol i \<Rightarrow> if i < length (symbols reg) then fst (symbols reg ! i) else []
      | Keyword i \<Rightarrow> if i < length (keyword_spellings reg) then keyword_spellings reg ! i else []
      | _ \<Rightarrow> [])"

text \<open>
  The two uses of \<^verbatim>\<open>llvm::StringSwitch\<close> over the table: \<^verbatim>\<open>StartsWith\<close> cases for the
  symbols and \<^verbatim>\<open>Case\<close> cases for the keywords. The first case that applies, in table
  order, decides; \<^verbatim>\<open>Default\<close> is the \<open>Error\<close> kind.
\<close>

fun StartsWithSwitch :: "(string \<times> GroupRole) list \<Rightarrow> nat \<Rightarrow> string \<Rightarrow> TokenKind" where
  "StartsWithSwitch [] i text = Error"
| "StartsWithSwitch (e # es) i text =
     (if prefix (fst e) text then Symbol i else StartsWithSwitch es (Suc i) text)"

fun CaseSwitch :: "string list \<Rightarrow> nat \<Rightarrow> string \<Rightarrow> TokenKind" where
  "CaseSwitch [] i text = Error"
| "CaseSwitch (s # ss) i text = (if s = text then Keyword i else CaseSwitch ss (Suc i) text)"

section \<open>Characters\<close>

definition newline :: char where "newline = CHR 0x0A"
definition tab :: char where "tab = CHR 0x09"

definition isDigit :: "char \<Rightarrow> bool" where
  "isDigit c = (c \<in> set ''0123456789'')"

definition isAlpha :: "char \<Rightarrow> bool" where
  "isAlpha c = (c \<in> set ''abcdefghijklmnopqrstuvwxyzABCDEFGHIJKLMNOPQRSTUVWXYZ'')"

definition isAlnum :: "char \<Rightarrow> bool" where
  "isAlnum c = (isAlpha c \<or> isDigit c)"

definition isWordChar :: "char \<Rightarrow> bool" where
  "isWordChar c = (isAlnum c \<or> c = CHR ''_'')"

section \<open>The token store\<close>

text \<open>
  \<^verbatim>\<open>Line\<close>, \<^verbatim>\<open>Token\<close> and \<^verbatim>\<open>Identifier\<close> are indices into the vectors of the buffer.
  \<^verbatim>\<open>LineInfo\<close> is built in the source as \<^verbatim>\<open>{start, length, indent}\<close>. The payload of a
  token is one \<^verbatim>\<open>union\<close> slot in the source; the datatype names the member that was
  written last, \<open>PayloadNone\<close> for a slot never written.
\<close>

record LineInfo =
  start :: int
  line_length :: int
  indent :: int

datatype Payload =
  PayloadNone
  | PayloadId nat
  | PayloadLiteralIndex nat
  | PayloadClosingToken nat
  | PayloadOpeningToken nat
  | PayloadErrorLength nat

record TokenInfo =
  kind :: TokenKind
  is_recovery :: bool
  token_line :: nat
  column :: int
  payload :: Payload

record TokenizedBuffer =
  line_infos :: "LineInfo list"
  token_infos :: "TokenInfo list"
  identifier_infos :: "string list"
  identifier_map :: "string \<rightharpoonup> nat"
  int_literals :: "nat list"
  has_errors :: bool

definition EmptyBuffer :: TokenizedBuffer where
  "EmptyBuffer =
     \<lparr>line_infos = [], token_infos = [], identifier_infos = [],
      identifier_map = Map.empty, int_literals = [], has_errors = False\<rparr>"

definition AddLine :: "TokenizedBuffer \<Rightarrow> LineInfo \<Rightarrow> TokenizedBuffer \<times> nat" where
  "AddLine buf info = (buf\<lparr>line_infos := line_infos buf @ [info]\<rparr>, length (line_infos buf))"

definition AddToken :: "TokenizedBuffer \<Rightarrow> TokenInfo \<Rightarrow> TokenizedBuffer \<times> nat" where
  "AddToken buf info = (buf\<lparr>token_infos := token_infos buf @ [info]\<rparr>, length (token_infos buf))"

definition NewToken :: "TokenKind \<Rightarrow> nat \<Rightarrow> int \<Rightarrow> TokenInfo" where
  "NewToken k l c =
     \<lparr>kind = k, is_recovery = False, token_line = l, column = c, payload = PayloadNone\<rparr>"

section \<open>The lexer state\<close>

datatype Diagnostic =
  UnmatchedClosing
  | MismatchedClosing
  | EmptyDigitSequence
  | InvalidDigit char nat
  | InvalidDigitSeparator
  | IrregularDigitSeparators nat
  | UnknownBaseSpecifier

text \<open>
  The state of \<^verbatim>\<open>TokenizedBuffer::Lexer\<close>, the buffer it fills and the two sinks it
  writes to: \<open>emitter\<close> is the list of diagnostics handed to the \<^verbatim>\<open>DiagnosticEmitter\<close>,
  in order; \<open>errs\<close> is what \<^verbatim>\<open>LexError\<close> prints to \<^verbatim>\<open>llvm::errs()\<close>, as (line
  number, column number) pairs. \<open>current_line_info\<close> of the source always points at the
  entry \<open>current_line\<close> of \<open>line_infos\<close>. The top of \<open>open_groups\<close> (the back of the
  source's vector) is the head of the list. Columns and offsets are unbounded integers:
  the model is of sources shorter than \<open>2^31\<close> bytes.
\<close>

record Lexer =
  buffer :: TokenizedBuffer
  emitter :: "Diagnostic list"
  errs :: "(int \<times> int) list"
  current_line :: nat
  current_column :: int
  set_indent :: bool
  open_groups :: "nat list"

definition current_line_info :: "Lexer \<Rightarrow> LineInfo" where
  "current_line_info lx = line_infos (buffer lx) ! current_line lx"

definition update_current_line_info :: "(LineInfo \<Rightarrow> LineInfo) \<Rightarrow> Lexer \<Rightarrow> Lexer" where
  "update_current_line_info f lx =
     lx\<lparr>buffer := (buffer lx)\<lparr>line_infos :=
       (line_infos (buffer lx))[current_line lx := f (current_line_info lx)]\<rparr>\<rparr>"

definition update_token_info :: "nat \<Rightarrow> (TokenInfo \<Rightarrow> TokenInfo) \<Rightarrow> Lexer \<Rightarrow> Lexer" where
  "update_token_info t f lx =
     lx\<lparr>buffer := (buffer lx)\<lparr>token_infos :=
       (token_infos (buffer lx))[t := f (token_infos (buffer lx) ! t)]\<rparr>\<rparr>"

definition add_token :: "TokenInfo \<Rightarrow> Lexer \<Rightarrow> Lexer" where
  "add_token info lx = lx\<lparr>buffer := fst (AddToken (buffer lx) info)\<rparr>"

definition set_has_errors :: "Lexer \<Rightarrow> Lexer" where
  "set_has_errors lx = lx\<lparr>buffer := (buffer lx)\<lparr>has_errors := True\<rparr>\<rparr>"

definition EmitError :: "Diagnostic \<Rightarrow> Lexer \<Rightarrow> Lexer" where
  "EmitError d lx = lx\<lparr>emitter := emitter lx @ [d]\<rparr>"

definition advance :: "nat \<Rightarrow> Lexer \<Rightarrow> Lexer" where
  "advance n lx = lx\<lparr>current_column := current_column lx + int n\<rparr>"

text \<open>
  The constructor of the lexer adds the first line, \<^verbatim>\<open>{0, 0, 0}\<close>.
\<close>

definition InitLexer :: Lexer where
  "InitLexer =
     \<lparr>buffer = fst (AddLine EmptyBuffer \<lparr>start = 0, line_length = 0, indent = 0\<rparr>),
      emitter = [], errs = [],
      current_line = snd (AddLine EmptyBuffer \<lparr>start = 0, line_length = 0, indent = 0\<rparr>),
      current_column = 0, set_indent = False, open_groups = []\<rparr>"

text \<open>
  The statement \<^verbatim>\<open>if (!set_indent) { current_line_info->indent = c; set_indent = true; }\<close>
  that opens each token-producing strategy but \<^verbatim>\<open>LexError\<close>.
\<close>

definition capture_indent :: "int \<Rightarrow> Lexer \<Rightarrow> Lexer" where
  "capture_indent c lx =
     (if \<not> set_indent lx
      then (update_current_line_info (\<lambda>li. li\<lparr>indent := c\<rparr>) lx)\<lparr>set_indent := True\<rparr>
      else lx)"

section \<open>Whitespace, comments and lines\<close>

text \<open>
  The comment branch of \<^verbatim>\<open>SkipWhitespace\<close>: taken when the text starts with two slashes
  and no token has set the indent of the line. Three slashes add a \<open>DocComment\<close> token;
  the inner loop then drops every character up to the next newline, counting columns.
\<close>

definition SkipComment :: "Lexer \<Rightarrow> string \<Rightarrow> Lexer \<times> string" where
  "SkipComment lx source_text =
     (if prefix ''//'' source_text \<and> \<not> set_indent lx then
        let lx1 =
          (if prefix ''///'' source_text then
             add_token (NewToken DocComment (current_line lx) (current_column lx))
               ((update_current_line_info (\<lambda>li. li\<lparr>indent := current_column lx\<rparr>) lx)
                  \<lparr>set_indent := True\<rparr>)
           else lx)
        in (advance (length (takeWhile (\<lambda>c. c \<noteq> newline) source_text)) lx1,
            dropWhile (\<lambda>c. c \<noteq> newline) source_text)
      else (lx, source_text))"

lemma SkipComment_length: "length (snd (SkipComment lx s)) \<le> length s"
  by (simp add: SkipComment_def Let_def length_dropWhile_le)

lemma SkipComment_tl_length:
  "snd (SkipComment lx s) \<noteq> [] \<Longrightarrow> length (snd (SkipComment lx s)) - Suc 0 < length s"
  using SkipComment_length [of lx s] by (cases "snd (SkipComment lx s)") auto

definition set_line_length :: "Lexer \<Rightarrow> Lexer" where
  "set_line_length lx = update_current_line_info (\<lambda>li. li\<lparr>line_length := current_column lx\<rparr>) lx"

definition start_next_line :: "Lexer \<Rightarrow> Lexer" where
  "start_next_line lx =
     (let r = AddLine (buffer lx)
                \<lparr>start = start (current_line_info lx) + current_column lx + 1,
                 line_length = 0, indent = 0\<rparr>
      in lx\<lparr>buffer := fst r, current_line := snd r, current_column := 0, set_indent := False\<rparr>)"

function SkipWhitespace :: "Lexer \<Rightarrow> string \<Rightarrow> bool \<times> Lexer \<times> string" where
  "SkipWhitespace lx source_text =
     (if source_text = [] then (False, set_line_length lx, source_text)
      else
        let lx1 = fst (SkipComment lx source_text);
            text1 = snd (SkipComment lx source_text)
        in if text1 = [] then (False, set_line_length lx1, text1)
           else if hd text1 = newline then
             (if tl text1 = [] then (False, set_line_length lx1, tl text1)
              else SkipWhitespace (start_next_line (set_line_length lx1)) (tl text1))
           else if hd text1 = CHR '' '' \<or> hd text1 = tab then
             SkipWhitespace (advance 1 lx1) (tl text1)
           else (True, lx1, text1))"
  by pat_completeness auto
termination
  by (relation "measure (\<lambda>(lx, s). length s)") (auto simp: SkipComment_tl_length)

declare SkipWhitespace.simps [simp del]

section \<open>Symbols and bracket groups\<close>

text \<open>
  \<^verbatim>\<open>CloseInvalidOpenGroups\<close>: for a closing symbol or \<open>Error\<close>, pop every open group whose
  closing symbol is not the given kind; each popped group gets a recovery token of its
  closing kind at the current position, cross-linked with the opening token.
\<close>

definition close_top_group :: "Registry \<Rightarrow> Lexer \<Rightarrow> Lexer" where
  "close_top_group reg lx =
     (let opening_token = hd (open_groups lx);
          opening_kind = kind (token_infos (buffer lx) ! opening_token);
          lx1 = EmitError MismatchedClosing (set_has_errors (lx\<lparr>open_groups := tl (open_groups lx)\<rparr>));
          closing_token = snd (AddToken (buffer lx1)
            ((NewToken (GetClosingSymbol reg opening_kind) (current_line lx1) (current_column lx1))
               \<lparr>is_recovery := True\<rparr>));
          lx2 = add_token
            ((NewToken (GetClosingSymbol reg opening_kind) (current_line lx1) (current_column lx1))
               \<lparr>is_recovery := True\<rparr>) lx1;
          lx3 = update_token_info opening_token (\<lambda>t. t\<lparr>payload := PayloadClosingToken closing_token\<rparr>) lx2
      in update_token_info closing_token (\<lambda>t. t\<lparr>payload := PayloadOpeningToken opening_token\<rparr>) lx3)"

lemma close_top_group_open_groups [simp]:
  "open_groups (close_top_group reg lx) = tl (open_groups lx)"
  by (simp add: close_top_group_def Let_def update_token_info_def add_token_def
      EmitError_def set_has_errors_def)

function close_groups_loop :: "Registry \<Rightarrow> TokenKind \<Rightarrow> Lexer \<Rightarrow> Lexer" where
  "close_groups_loop reg k lx =
     (if open_groups lx = [] then lx
      else if k = GetClosingSymbol reg (kind (token_infos (buffer lx) ! hd (open_groups lx)))
      then lx
      else close_groups_loop reg k (close_top_group reg lx))"
  by pat_completeness auto
termination
  by (relation "measure (\<lambda>(reg, k, lx). length (open_groups lx))") auto

declare close_groups_loop.simps [simp del]

definition CloseInvalidOpenGroups :: "Registry \<Rightarrow> TokenKind \<Rightarrow> Lexer \<Rightarrow> Lexer" where
  "CloseInvalidOpenGroups reg k lx =
     (if \<not> IsClosingSymbol reg k \<and> k \<noteq> Error then lx else close_groups_loop reg k lx)"

definition LexSymbolToken :: "Registry \<Rightarrow> Lexer \<Rightarrow> string \<Rightarrow> bool \<times> Lexer \<times> string" where
  "LexSymbolToken reg lx source_text =
     (let k = StartsWithSwitch (symbols reg) 0 source_text in
      if k = Error then (False, lx, source_text)
      else
        let lx1 = CloseInvalidOpenGroups reg k (capture_indent (current_column lx) lx);
            token = snd (AddToken (buffer lx1) (NewToken k (current_line lx1) (current_column lx1)));
            lx2 = add_token (NewToken k (current_line lx1) (current_column lx1)) lx1;
            n = length (GetFixedSpelling reg k);
            lx3 = advance n lx2;
            rest = drop n source_text
        in if IsOpeningSymbol reg k then (True, lx3\<lparr>open_groups := token # open_groups lx3\<rparr>, rest)
           else if \<not> IsClosingSymbol reg k then (True, lx3, rest)
           else if open_groups lx3 = [] then
             (True,
              EmitError UnmatchedClosing
                (set_has_errors
                  (update_token_info token
                    (\<lambda>t. t\<lparr>kind := Error, payload := PayloadErrorLength n\<rparr>) lx3)),
              rest)
           else
             let opening_token = hd (open_groups lx3);
                 lx4 = lx3\<lparr>open_groups := tl (open_groups lx3)\<rparr>;
                 lx5 = update_token_info opening_token (\<lambda>t. t\<lparr>payload := PayloadClosingToken token\<rparr>) lx4
             in (True,
                 update_token_info token (\<lambda>t. t\<lparr>payload := PayloadOpeningToken opening_token\<rparr>) lx5,
                 rest))"

section \<open>Integer literals\<close>

definition TakeLeadingIntegerLiteral :: "string \<Rightarrow> string" where
  "TakeLeadingIntegerLiteral source_text =
     (if source_text = [] \<or> \<not> isDigit (hd source_text) then []
      else takeWhile isWordChar source_text)"

definition diagnose_irregular_digit_separators :: "nat \<Rightarrow> Lexer \<Rightarrow> Lexer" where
  "diagnose_irregular_digit_separators radix lx =
     set_has_errors (EmitError (IrregularDigitSeparators radix) lx)"

text \<open>
  The loop of \<^verbatim>\<open>CheckDigitSeparatorPlacement\<close>, from the end of the text towards its
  start in strides of 4 (decimal) or 5 (hexadecimal) characters. \<open>pos\<close> is the distance
  of the iterator from the start of the text. The count of remaining separators is
  decremented once per separator found, so it never goes below zero.
\<close>

function placement_loop :: "string \<Rightarrow> nat \<Rightarrow> nat \<Rightarrow> nat \<Rightarrow> Lexer \<Rightarrow> Lexer" where
  "placement_loop text radix pos remaining_digit_separators lx =
     (let stride = (if radix = 10 then 4 else 5) in
      if pos \<ge> stride then
        (if text ! (pos - stride) \<noteq> CHR ''_'' then diagnose_irregular_digit_separators radix lx
         else placement_loop text radix (pos - stride) (remaining_digit_separators - 1) lx)
      else if remaining_digit_separators \<noteq> 0 then diagnose_irregular_digit_separators radix lx
      else lx)"
  by pat_completeness auto
termination
  by (relation "measure (\<lambda>(text, radix, pos, r, lx). pos)") (auto split: if_splits)

declare placement_loop.simps [simp del]

definition CheckDigitSeparatorPlacement :: "string \<Rightarrow> nat \<Rightarrow> nat \<Rightarrow> Lexer \<Rightarrow> Lexer" where
  "CheckDigitSeparatorPlacement text radix num_digit_separators lx =
     placement_loop text radix (length text) num_digit_separators lx"

definition valid_digits :: "nat \<Rightarrow> char \<Rightarrow> bool" where
  "valid_digits radix c =
     (if radix = 2 then c \<in> set ''01''
      else if radix = 10 then c \<in> set ''0123456789''
      else c \<in> set ''0123456789ABCDEF'')"

text \<open>
  The scan of \<^verbatim>\<open>CheckDigitSequence\<close>, from index \<open>i\<close> (the source starts it at 0 and
  stops at \<open>i = n\<close>). The result is \<open>ok\<close>, the number of separators seen and the lexer.
\<close>

function digit_loop :: "string \<Rightarrow> nat \<Rightarrow> nat \<Rightarrow> nat \<Rightarrow> Lexer \<Rightarrow> bool \<times> nat \<times> Lexer" where
  "digit_loop text radix i num_digit_separators lx =
     (if i \<ge> length text then (True, num_digit_separators, lx)
      else
        let c = text ! i in
        if valid_digits radix c then digit_loop text radix (i + 1) num_digit_separators lx
        else if c = CHR ''_'' then
          digit_loop text radix (i + 1) (num_digit_separators + 1)
            (if i = 0 \<or> text ! (i - 1) = CHR ''_'' \<or> i + 1 = length text
             then set_has_errors (EmitError InvalidDigitSeparator lx) else lx)
        else (False, num_digit_separators, EmitError (InvalidDigit c radix) lx))"
  by pat_completeness auto
termination
  by (relation "measure (\<lambda>(text, radix, i, n, lx). length text - i)") auto

declare digit_loop.simps [simp del]

text \<open>\<^verbatim>\<open>CheckDigitSequence\<close> returns \<open>ok\<close>, \<open>has_digit_separators\<close> and the lexer.\<close>

definition CheckDigitSequence :: "string \<Rightarrow> nat \<Rightarrow> Lexer \<Rightarrow> bool \<times> bool \<times> Lexer" where
  "CheckDigitSequence text radix lx =
     (if text = [] then (False, False, EmitError EmptyDigitSequence lx)
      else
        case digit_loop text radix 0 0 lx of
          (ok, num_digit_separators, lx1) \<Rightarrow>
            if \<not> ok then (False, False, lx1)
            else
              (True, num_digit_separators \<noteq> 0,
               if num_digit_separators \<noteq> 0 \<and> radix \<noteq> 2
               then CheckDigitSeparatorPlacement text radix num_digit_separators lx1
               else lx1))"

text \<open>
  \<^verbatim>\<open>StringRef::getAsInteger(radix, APInt)\<close> of LLVM, with the radix given: it fails
  (\<open>None\<close>) on the empty text and on a character that is not a digit of the radix,
  and otherwise gives the value of the digits, most significant first. The digit of a
  character is its distance from \<open>0\<close>, or ten plus its distance from \<open>a\<close> or \<open>A\<close>.
\<close>

definition digit_value :: "char \<Rightarrow> nat option" where
  "digit_value c =
     (let n = (of_char c :: nat) in
      if 48 \<le> n \<and> n \<le> 57 then Some (n - 48)
      else if 97 \<le> n \<and> n \<le> 122 then Some (n - 97 + 10)
      else if 65 \<le> n \<and> n \<le> 90 then Some (n - 65 + 10)
      else None)"

fun digits_value :: "nat \<Rightarrow> nat \<Rightarrow> string \<Rightarrow> nat option" where
  "digits_value radix acc [] = Some acc"
| "digits_value radix acc (c # cs) =
     (case digit_value c of
        None \<Rightarrow> None
      | Some d \<Rightarrow> if d \<ge> radix then None else digits_value radix (acc * radix + d) cs)"

definition getAsInteger :: "nat \<Rightarrow> string \<Rightarrow> nat option" where
  "getAsInteger radix text = (if text = [] then None else digits_value radix 0 text)"

text \<open>
  \<^verbatim>\<open>llvm_unreachable("should never fail")\<close>: the run ends there and \<^verbatim>\<open>Lex\<close> returns
  nothing (an abort; undefined behaviour in a build without assertions).
\<close>

datatype LexAbort = Unreachable

definition add_error_token_and_continue_lexing :: "int \<Rightarrow> nat \<Rightarrow> Lexer \<Rightarrow> Lexer" where
  "add_error_token_and_continue_lexing int_column n lx =
     set_has_errors
       (add_token ((NewToken Error (current_line lx) int_column)\<lparr>payload := PayloadErrorLength n\<rparr>) lx)"

definition add_integer_token :: "int \<Rightarrow> nat \<Rightarrow> Lexer \<Rightarrow> Lexer" where
  "add_integer_token int_column int_value lx =
     (let lx1 = add_token
                  ((NewToken IntegerLiteral (current_line lx) int_column)
                     \<lparr>payload := PayloadLiteralIndex (length (int_literals (buffer lx)))\<rparr>) lx
      in lx1\<lparr>buffer := (buffer lx1)\<lparr>int_literals := int_literals (buffer lx1) @ [int_value]\<rparr>\<rparr>)"

definition LexIntegerLiteral :: "Lexer \<Rightarrow> string \<Rightarrow> LexAbort + (bool \<times> Lexer \<times> string)" where
  "LexIntegerLiteral lx source_text =
     (let int_text = TakeLeadingIntegerLiteral source_text in
      if int_text = [] then Inr (False, lx, source_text)
      else
        let int_column = current_column lx;
            lx1 = capture_indent int_column (advance (length int_text) lx);
            rest = drop (length int_text) source_text
        in case (if length int_text \<ge> 2 \<and> int_text ! 0 = CHR ''0'' then
                   (if int_text ! 1 = CHR ''x'' then Some (16, drop 2 int_text)
                    else if int_text ! 1 = CHR ''b'' then Some (2, drop 2 int_text)
                    else None)
                 else Some (10, int_text)) of
             None \<Rightarrow>
               Inr (True,
                    add_error_token_and_continue_lexing int_column (length int_text)
                      (EmitError UnknownBaseSpecifier lx1),
                    rest)
           | Some (radix, digits) \<Rightarrow>
               (case CheckDigitSequence digits radix lx1 of
                  (ok, has_digit_separators, lx2) \<Rightarrow>
                    if \<not> ok then
                      Inr (True,
                           add_error_token_and_continue_lexing int_column (length int_text) lx2,
                           rest)
                    else
                      let cleaned = (if has_digit_separators
                                     then filter (\<lambda>c. c \<noteq> CHR ''_'') digits else digits)
                      in case getAsInteger radix cleaned of
                           None \<Rightarrow> Inl Unreachable
                         | Some int_value \<Rightarrow>
                             Inr (True, add_integer_token int_column int_value lx2, rest)))"

section \<open>Keywords and identifiers\<close>

definition GetOrCreateIdentifier :: "string \<Rightarrow> Lexer \<Rightarrow> nat \<times> Lexer" where
  "GetOrCreateIdentifier text lx =
     (case identifier_map (buffer lx) text of
        Some i \<Rightarrow> (i, lx)
      | None \<Rightarrow>
          (length (identifier_infos (buffer lx)),
           lx\<lparr>buffer := (buffer lx)
             \<lparr>identifier_map := (identifier_map (buffer lx))(text \<mapsto> length (identifier_infos (buffer lx))),
              identifier_infos := identifier_infos (buffer lx) @ [text]\<rparr>\<rparr>))"

text \<open>
  \<^verbatim>\<open>LexKeywordOrIdentifier\<close> reads \<^verbatim>\<open>source_text.front()\<close>: it is called on a non-empty
  text only (the drive loop calls it after \<^verbatim>\<open>SkipWhitespace\<close> returned true).
\<close>

definition LexKeywordOrIdentifier :: "Registry \<Rightarrow> Lexer \<Rightarrow> string \<Rightarrow> bool \<times> Lexer \<times> string" where
  "LexKeywordOrIdentifier reg lx source_text =
     (if \<not> isAlpha (hd source_text) \<and> hd source_text \<noteq> CHR ''_'' then (False, lx, source_text)
      else
        let lx1 = capture_indent (current_column lx) lx;
            identifier_text = takeWhile isWordChar source_text;
            identifier_column = current_column lx1;
            lx2 = advance (length identifier_text) lx1;
            rest = drop (length identifier_text) source_text;
            k = CaseSwitch (keyword_spellings reg) 0 identifier_text
        in if k \<noteq> Error then
             (True, add_token (NewToken k (current_line lx2) identifier_column) lx2, rest)
           else
             case GetOrCreateIdentifier identifier_text lx2 of
               (ident, lx3) \<Rightarrow>
                 (True,
                  add_token ((NewToken Identifier (current_line lx3) identifier_column)
                               \<lparr>payload := PayloadId ident\<rparr>) lx3,
                  rest))"

section \<open>The fallback error scan\<close>

text \<open>
  The predicate of \<^verbatim>\<open>take_while\<close> in \<^verbatim>\<open>LexError\<close>: the character is not alphanumeric,
  not an underscore, a tab or a newline, and the one-character text made of it starts
  with no symbol spelling.
\<close>

definition unrecognized_char :: "Registry \<Rightarrow> char \<Rightarrow> bool" where
  "unrecognized_char reg c =
     (if isAlnum c then False
      else if c = CHR ''_'' \<or> c = tab \<or> c = newline then False
      else StartsWithSwitch (symbols reg) 0 [c] = Error)"

definition LexError :: "Registry \<Rightarrow> Lexer \<Rightarrow> string \<Rightarrow> Lexer \<times> string" where
  "LexError reg lx source_text =
     (let error_text0 = takeWhile (unrecognized_char reg) source_text;
          error_text1 = (if error_text0 = [] then take 1 source_text else error_text0);
          error_text = take 2147483647 error_text1;
          lx1 = add_token ((NewToken Error (current_line lx) (current_column lx))
                             \<lparr>payload := PayloadErrorLength (length error_text)\<rparr>) lx;
          lx2 = lx1\<lparr>errs := errs lx1 @ [(int (current_line lx) + 1, current_column lx + 1)]\<rparr>
      in (set_has_errors (advance (length error_text) lx2), drop (length error_text) source_text))"

section \<open>The drive loop\<close>

text \<open>
  One turn of the loop of \<^verbatim>\<open>TokenizedBuffer::Lex\<close> after \<^verbatim>\<open>SkipWhitespace\<close> returned
  true: the strategies in their order, the first that returns true ends the turn. An
  abort inside \<open>LexIntegerLiteral\<close> ends the run.
\<close>

definition LexToken :: "Registry \<Rightarrow> Lexer \<Rightarrow> string \<Rightarrow> LexAbort + (Lexer \<times> string)" where
  "LexToken reg lx source_text =
     (case LexSymbolToken reg lx source_text of
        (True, lx1, text1) \<Rightarrow> Inr (lx1, text1)
      | (False, lx1, text1) \<Rightarrow>
          (case LexKeywordOrIdentifier reg lx1 text1 of
             (True, lx2, text2) \<Rightarrow> Inr (lx2, text2)
           | (False, lx2, text2) \<Rightarrow>
               (case LexIntegerLiteral lx2 text2 of
                  Inl a \<Rightarrow> Inl a
                | Inr (True, lx3, text3) \<Rightarrow> Inr (lx3, text3)
                | Inr (False, lx3, text3) \<Rightarrow> Inr (LexError reg lx3 text3))))"

text \<open>
  The loop itself. Nothing in its text bounds the number of turns, so it is a partial
  function: \<open>None\<close> is a run that never leaves the loop, \<open>Some (Inl a)\<close> a run that
  aborts, \<open>Some (Inr lx)\<close> a run that leaves the loop in the state \<open>lx\<close>.
\<close>

partial_function (option) LexLoop :: "Registry \<Rightarrow> Lexer \<Rightarrow> string \<Rightarrow> (LexAbort + Lexer) option" where
  "LexLoop reg lx source_text =
     (case SkipWhitespace lx source_text of
        (found, lx1, text1) \<Rightarrow>
          if found then
            (case LexToken reg lx1 text1 of
               Inl a \<Rightarrow> Some (Inl a)
             | Inr (lx2, text2) \<Rightarrow> LexLoop reg lx2 text2)
          else Some (Inr lx1))"

declare LexLoop.simps [code]

text \<open>
  \<open>LexRun\<close> is \<^verbatim>\<open>TokenizedBuffer::Lex\<close> with the whole final state of the lexer (the buffer,
  what the emitter received, the stack of open groups); \<open>Lex\<close> is the buffer it returns.
  Both are \<open>Some (Inr _)\<close> exactly when the source's \<^verbatim>\<open>Lex\<close> returns.
\<close>

definition LexRun :: "Registry \<Rightarrow> string \<Rightarrow> (LexAbort + Lexer) option" where
  "LexRun reg source =
     map_option (map_sum id (CloseInvalidOpenGroups reg Error)) (LexLoop reg InitLexer source)"

definition Lex :: "Registry \<Rightarrow> string \<Rightarrow> (LexAbort + TokenizedBuffer) option" where
  "Lex reg source = map_option (map_sum id buffer) (LexRun reg source)"

section \<open>Reading the token store\<close>

text \<open>
  \<^verbatim>\<open>StringRef::substr\<close> and \<^verbatim>\<open>StringRef::slice\<close> clamp their arguments to the text; a
  negative \<^verbatim>\<open>int64_t\<close> start converts to a \<^verbatim>\<open>size_t\<close> beyond any text.
\<close>

definition substr :: "string \<Rightarrow> int \<Rightarrow> nat \<Rightarrow> string" where
  "substr s st n = (if st < 0 then [] else take n (drop (nat st) s))"

definition slice :: "string \<Rightarrow> int \<Rightarrow> int \<Rightarrow> string" where
  "slice s st en = (if st < 0 then [] else take (nat en - nat st) (drop (nat st) s))"

definition GetIdentifierText :: "TokenizedBuffer \<Rightarrow> nat \<Rightarrow> string" where
  "GetIdentifierText buf ident = identifier_infos buf ! ident"

definition error_length :: "TokenInfo \<Rightarrow> nat" where
  "error_length t = (case payload t of PayloadErrorLength n \<Rightarrow> n | _ \<Rightarrow> 0)"

definition GetTokenText :: "Registry \<Rightarrow> string \<Rightarrow> TokenizedBuffer \<Rightarrow> nat \<Rightarrow> string" where
  "GetTokenText reg source buf token =
     (let token_info = token_infos buf ! token;
          fixed_spelling = GetFixedSpelling reg (kind token_info);
          line_info = line_infos buf ! token_line token_info;
          token_start = start line_info + column token_info
      in if fixed_spelling \<noteq> [] then fixed_spelling
         else if kind token_info = Error then substr source token_start (error_length token_info)
         else if kind token_info = DocComment then
           slice source token_start (start line_info + line_length line_info)
         else if kind token_info = IntegerLiteral then
           TakeLeadingIntegerLiteral (drop (nat token_start) source)
         else (case payload token_info of PayloadId ident \<Rightarrow> GetIdentifierText buf ident | _ \<Rightarrow> []))"

definition GetMatchedClosingToken :: "TokenizedBuffer \<Rightarrow> nat \<Rightarrow> nat option" where
  "GetMatchedClosingToken buf token =
     (case payload (token_infos buf ! token) of PayloadClosingToken t \<Rightarrow> Some t | _ \<Rightarrow> None)"

definition GetMatchedOpeningToken :: "TokenizedBuffer \<Rightarrow> nat \<Rightarrow> nat option" where
  "GetMatchedOpeningToken buf token =
     (case payload (token_infos buf ! token) of PayloadOpeningToken t \<Rightarrow> Some t | _ \<Rightarrow> None)"

definition GetIndentColumnNumber :: "TokenizedBuffer \<Rightarrow> nat \<Rightarrow> int" where
  "GetIndentColumnNumber buf line = indent (line_infos buf ! line) + 1"

section \<open>A registry to run the lexer on\<close>

text \<open>
  Modelled from the spec: the registry is external; the spec names bracket pairs and the
  operators \<open>-\<close> and \<open>->\<close> (longest spelling first). This table has the three bracket
  pairs, a few operators and two keywords, enough to run the examples of the spec.
\<close>

definition SampleRegistry :: Registry where
  "SampleRegistry =
     \<lparr>symbols =
        [(''('', OpeningGroup 1), ('')'', ClosingGroup 0),
         (''['', OpeningGroup 3), ('']'', ClosingGroup 2),
         (''{'', OpeningGroup 5), (''}'', ClosingGroup 4),
         (''->'', NoGroup), (''-'', NoGroup), (''='', NoGroup),
         ('';'', NoGroup), ('','', NoGroup)],
      keyword_spellings = [''fn'', ''return'']\<rparr>"

section \<open>Registries the lexer is run with\<close>

text \<open>
  The loop of \<^verbatim>\<open>Lex\<close> advances by the length of the spelling of the symbol it matched, so
  a table entry with an empty spelling would match everywhere and consume nothing. Every
  spelling of a real table is non-empty.
\<close>

definition nonempty_spellings :: "Registry \<Rightarrow> bool" where
  "nonempty_spellings reg = list_all (\<lambda>e. fst e \<noteq> []) (symbols reg)"

section \<open>Forward progress and termination\<close>

lemma StartsWithSwitch_Symbol:
  "StartsWithSwitch es i t = Symbol j \<Longrightarrow>
     i \<le> j \<and> j - i < length es \<and> prefix (fst (es ! (j - i))) t"
proof (induction es arbitrary: i)
  case Nil
  then show ?case by simp
next
  case (Cons e es)
  show ?case
  proof (cases "prefix (fst e) t")
    case True
    with Cons.prems show ?thesis by simp
  next
    case False
    with Cons.prems have "StartsWithSwitch es (Suc i) t = Symbol j" by simp
    from Cons.IH [OF this] have a: "Suc i \<le> j" "j - Suc i < length es"
      "prefix (fst (es ! (j - Suc i))) t" by simp_all
    from a(1) have "j - i = Suc (j - Suc i)" by arith
    with a show ?thesis by simp
  qed
qed

lemma StartsWithSwitch_kind:
  "StartsWithSwitch es i t = Error \<or> (\<exists>j. StartsWithSwitch es i t = Symbol j)"
  by (induction es arbitrary: i) auto

lemma SymbolSwitch_spelling:
  assumes "StartsWithSwitch (symbols reg) 0 t = k" "k \<noteq> Error"
  shows "\<exists>j. k = Symbol j \<and> j < length (symbols reg) \<and> GetFixedSpelling reg k = fst (symbols reg ! j)
           \<and> prefix (GetFixedSpelling reg k) t"
proof -
  from assms StartsWithSwitch_kind [of "symbols reg" 0 t]
  obtain j where j: "StartsWithSwitch (symbols reg) 0 t = Symbol j" by auto
  from StartsWithSwitch_Symbol [OF this] have "j < length (symbols reg)"
    "prefix (fst (symbols reg ! j)) t" by simp_all
  with j assms show ?thesis by (auto simp: GetFixedSpelling_def)
qed

lemma SkipWhitespace_True:
  "SkipWhitespace lx s = (True, lx', s') \<Longrightarrow>
     s' \<noteq> [] \<and> hd s' \<noteq> newline \<and> hd s' \<noteq> CHR '' '' \<and> hd s' \<noteq> tab \<and> length s' \<le> length s"
proof (induction lx s rule: SkipWhitespace.induct)
  case (1 lx s)
  let ?lx1 = "fst (SkipComment lx s)" and ?t1 = "snd (SkipComment lx s)"
  have len: "length ?t1 \<le> length s" by (rule SkipComment_length)
  have len': "length (tl ?t1) \<le> length s" using len by simp
  from "1.prems" have ne: "s \<noteq> []" "?t1 \<noteq> []"
    by (auto simp: SkipWhitespace.simps [of lx s] Let_def split: if_splits)
  consider (nl) "hd ?t1 = newline" | (ws) "hd ?t1 \<noteq> newline" "hd ?t1 = CHR '' '' \<or> hd ?t1 = tab"
    | (tok) "hd ?t1 \<noteq> newline" "hd ?t1 \<noteq> CHR '' ''" "hd ?t1 \<noteq> tab" by blast
  then show ?case
  proof cases
    case nl
    with "1.prems" ne have ne2: "tl ?t1 \<noteq> []"
      and r: "SkipWhitespace (start_next_line (set_line_length ?lx1)) (tl ?t1) = (True, lx', s')"
      by (auto simp: SkipWhitespace.simps [of lx s] Let_def split: if_splits)
    from "1.IH"(1) [OF ne(1) refl refl ne(2) nl ne2 r] len' show ?thesis by simp
  next
    case ws
    with "1.prems" ne have r: "SkipWhitespace (advance 1 ?lx1) (tl ?t1) = (True, lx', s')"
      by (auto simp: SkipWhitespace.simps [of lx s] Let_def split: if_splits)
    from "1.IH"(2) [OF ne(1) refl refl ne(2) ws r] len' show ?thesis by simp
  next
    case tok
    with "1.prems" ne have "s' = ?t1"
      by (auto simp: SkipWhitespace.simps [of lx s] Let_def split: if_splits)
    with tok ne len show ?thesis by simp
  qed
qed

lemma takeWhile_hd_nonempty: "s \<noteq> [] \<Longrightarrow> P (hd s) \<Longrightarrow> takeWhile P s \<noteq> []"
  by (cases s) auto

lemma drop_shorter: "s \<noteq> [] \<Longrightarrow> 0 < n \<Longrightarrow> length (drop n s) < length s"
  by simp

lemma LexSymbolToken_text:
  "snd (snd (LexSymbolToken reg lx s)) =
     drop (length (GetFixedSpelling reg (StartsWithSwitch (symbols reg) 0 s))) s"
  "fst (LexSymbolToken reg lx s) = (StartsWithSwitch (symbols reg) 0 s \<noteq> Error)"
  by (simp_all add: LexSymbolToken_def Let_def GetFixedSpelling_def)

lemma LexSymbolToken_False:
  "\<not> fst (LexSymbolToken reg lx s) \<Longrightarrow> LexSymbolToken reg lx s = (False, lx, s)"
  by (simp add: LexSymbolToken_def Let_def split: if_splits)

lemma LexKeywordOrIdentifier_text:
  "snd (snd (LexKeywordOrIdentifier reg lx s)) =
     (if isAlpha (hd s) \<or> hd s = CHR ''_'' then drop (length (takeWhile isWordChar s)) s else s)"
  "fst (LexKeywordOrIdentifier reg lx s) = (isAlpha (hd s) \<or> hd s = CHR ''_'')"
  by (auto simp add: LexKeywordOrIdentifier_def Let_def split: prod.splits)

lemma LexKeywordOrIdentifier_False:
  "\<not> fst (LexKeywordOrIdentifier reg lx s) \<Longrightarrow> LexKeywordOrIdentifier reg lx s = (False, lx, s)"
  by (auto simp add: LexKeywordOrIdentifier_def Let_def split: prod.splits if_splits)

lemma LexIntegerLiteral_Nil:
  "TakeLeadingIntegerLiteral s = [] \<Longrightarrow> LexIntegerLiteral lx s = Inr (False, lx, s)"
  by (simp add: LexIntegerLiteral_def)

lemma LexIntegerLiteral_Inr:
  assumes "LexIntegerLiteral lx s = Inr (b, lx', s')"
  shows "b = (TakeLeadingIntegerLiteral s \<noteq> [])"
    and "s' = drop (length (TakeLeadingIntegerLiteral s)) s"
  using assms
  by (auto simp add: LexIntegerLiteral_def Let_def split: prod.splits option.splits if_splits)

definition error_span :: "Registry \<Rightarrow> string \<Rightarrow> string" where
  "error_span reg s =
     take 2147483647
       (if takeWhile (unrecognized_char reg) s = [] then take 1 s
        else takeWhile (unrecognized_char reg) s)"

lemma LexError_text: "snd (LexError reg lx s) = drop (length (error_span reg s)) s"
  by (simp add: LexError_def Let_def error_span_def)

lemma error_span_nonempty: "s \<noteq> [] \<Longrightarrow> error_span reg s \<noteq> []"
  by (cases s) (auto simp: error_span_def)

text \<open>The outcomes of one turn, by the strategy that takes it.\<close>

lemma LexToken_cases [case_names symbol word int abort err]:
  obtains
    (symbol) "StartsWithSwitch (symbols reg) 0 s \<noteq> Error"
      "LexToken reg lx s = Inr (fst (snd (LexSymbolToken reg lx s)),
         drop (length (GetFixedSpelling reg (StartsWithSwitch (symbols reg) 0 s))) s)"
  | (word) "StartsWithSwitch (symbols reg) 0 s = Error" "isAlpha (hd s) \<or> hd s = CHR ''_''"
      "LexToken reg lx s = Inr (fst (snd (LexKeywordOrIdentifier reg lx s)),
         drop (length (takeWhile isWordChar s)) s)"
  | (int) lx' where "StartsWithSwitch (symbols reg) 0 s = Error"
      "\<not> (isAlpha (hd s) \<or> hd s = CHR ''_'')" "TakeLeadingIntegerLiteral s \<noteq> []"
      "LexIntegerLiteral lx s = Inr (True, lx', drop (length (TakeLeadingIntegerLiteral s)) s)"
      "LexToken reg lx s = Inr (lx', drop (length (TakeLeadingIntegerLiteral s)) s)"
  | (abort) "StartsWithSwitch (symbols reg) 0 s = Error"
      "\<not> (isAlpha (hd s) \<or> hd s = CHR ''_'')" "TakeLeadingIntegerLiteral s \<noteq> []"
      "LexToken reg lx s = Inl Unreachable"
  | (err) "StartsWithSwitch (symbols reg) 0 s = Error" "\<not> (isAlpha (hd s) \<or> hd s = CHR ''_'')"
      "TakeLeadingIntegerLiteral s = []"
      "LexToken reg lx s = Inr (LexError reg lx s)"
proof (cases "fst (LexSymbolToken reg lx s)")
  case True
  then have k: "StartsWithSwitch (symbols reg) 0 s \<noteq> Error" by (simp add: LexSymbolToken_text)
  from True have "LexToken reg lx s =
      Inr (fst (snd (LexSymbolToken reg lx s)), snd (snd (LexSymbolToken reg lx s)))"
    by (auto simp: LexToken_def split: prod.splits bool.splits)
  with k symbol show ?thesis by (simp add: LexSymbolToken_text)
next
  case False
  note s1 = LexSymbolToken_False [OF False]
  from False have k: "StartsWithSwitch (symbols reg) 0 s = Error" by (simp add: LexSymbolToken_text)
  show ?thesis
  proof (cases "fst (LexKeywordOrIdentifier reg lx s)")
    case True
    then have a: "isAlpha (hd s) \<or> hd s = CHR ''_''" by (simp add: LexKeywordOrIdentifier_text)
    from True s1 have "LexToken reg lx s =
        Inr (fst (snd (LexKeywordOrIdentifier reg lx s)), snd (snd (LexKeywordOrIdentifier reg lx s)))"
      by (auto simp: LexToken_def split: prod.splits bool.splits)
    with k a word show ?thesis by (simp add: LexKeywordOrIdentifier_text)
  next
    case False
    note s2 = LexKeywordOrIdentifier_False [OF False]
    from False have a: "\<not> (isAlpha (hd s) \<or> hd s = CHR ''_'')" by (simp add: LexKeywordOrIdentifier_text)
    show ?thesis
    proof (cases "LexIntegerLiteral lx s")
      case (Inl e)
      then have t: "TakeLeadingIntegerLiteral s \<noteq> []"
        using LexIntegerLiteral_Nil [of s lx] by auto
      from Inl s1 s2 have "LexToken reg lx s = Inl Unreachable"
        by (cases e) (simp add: LexToken_def)
      with k a t abort show ?thesis by simp
    next
      case (Inr r)
      obtain b lx' s' where r: "r = (b, lx', s')" by (cases r)
      note i = LexIntegerLiteral_Inr [OF Inr [unfolded r]]
      show ?thesis
      proof (cases b)
        case True
        with i Inr r s1 s2 have "TakeLeadingIntegerLiteral s \<noteq> []"
          "LexIntegerLiteral lx s = Inr (True, lx', drop (length (TakeLeadingIntegerLiteral s)) s)"
          "LexToken reg lx s = Inr (lx', drop (length (TakeLeadingIntegerLiteral s)) s)"
          by (simp_all add: LexToken_def)
        with k a int show ?thesis by blast
      next
        case False
        with i have t: "TakeLeadingIntegerLiteral s = []" by simp
        from LexIntegerLiteral_Nil [OF t, of lx] s1 s2
        have "LexToken reg lx s = Inr (LexError reg lx s)" by (simp add: LexToken_def)
        with k a t err show ?thesis by simp
      qed
    qed
  qed
qed

lemma LexToken_progress:
  assumes "nonempty_spellings reg" "s \<noteq> []" "LexToken reg lx s = Inr (lx', s')"
  shows "length s' < length s"
proof (cases rule: LexToken_cases [where reg = reg and s = s and lx = lx])
  case symbol
  from SymbolSwitch_spelling [OF refl symbol(1)] assms(1)
  have "GetFixedSpelling reg (StartsWithSwitch (symbols reg) 0 s) \<noteq> []"
    by (auto simp: nonempty_spellings_def list_all_iff)
  with symbol(2) assms(2,3) show ?thesis by simp
next
  case word
  then have "isWordChar (hd s)" by (auto simp: isWordChar_def isAlnum_def)
  then have "takeWhile isWordChar s \<noteq> []"
    using assms(2) by (rule takeWhile_hd_nonempty [rotated])
  with word(3) assms(2,3) show ?thesis by simp
next
  case (int l)
  from int(3) assms(2) have "length (drop (length (TakeLeadingIntegerLiteral s)) s) < length s"
    by simp
  with int(5) assms(3) show ?thesis by simp
next
  case abort
  with assms(3) show ?thesis by simp
next
  case err
  with assms(2,3) error_span_nonempty [of s reg] LexError_text [of reg lx s] show ?thesis
    by (cases "LexError reg lx s") auto
qed

text \<open>
  The loop does not run forever, and an invariant of its turns holds of the state it
  returns: \<open>I\<close> holds before \<open>SkipWhitespace\<close>, \<open>J\<close> of its result.
\<close>

lemma LexLoop_cases:
  assumes wf: "nonempty_spellings reg"
    and init: "I lx s"
    and skip: "\<And>lx s b lx' s'. I lx s \<Longrightarrow> SkipWhitespace lx s = (b, lx', s') \<Longrightarrow> J b lx' s'"
    and tok: "\<And>lx s lx' s'. J True lx s \<Longrightarrow> s \<noteq> [] \<Longrightarrow> hd s \<noteq> newline \<Longrightarrow> hd s \<noteq> CHR '' '' \<Longrightarrow>
                hd s \<noteq> tab \<Longrightarrow> LexToken reg lx s = Inr (lx', s') \<Longrightarrow> I lx' s'"
  shows "LexLoop reg lx s = Some (Inl Unreachable)
       \<or> (\<exists>lx' s'. LexLoop reg lx s = Some (Inr lx') \<and> J False lx' s')"
  using init
proof (induction "length s" arbitrary: lx s rule: less_induct)
  case less
  obtain b lx1 s1 where sk: "SkipWhitespace lx s = (b, lx1, s1)" by (cases "SkipWhitespace lx s")
  from skip [OF less.prems sk] have J: "J b lx1 s1" .
  show ?case
  proof (cases b)
    case False
    with sk J show ?thesis by (subst (1 2) LexLoop.simps) auto
  next
    case True
    from sk True have "SkipWhitespace lx s = (True, lx1, s1)" by simp
    from SkipWhitespace_True [OF this]
    have s1: "s1 \<noteq> []" "hd s1 \<noteq> newline" "hd s1 \<noteq> CHR '' ''" "hd s1 \<noteq> tab" "length s1 \<le> length s"
      by simp_all
    show ?thesis
    proof (cases "LexToken reg lx1 s1")
      case (Inl e)
      then have "LexToken reg lx1 s1 = Inl Unreachable" by (cases e) simp
      with sk True show ?thesis by (subst LexLoop.simps) simp
    next
      case (Inr r)
      obtain lx2 s2 where lt: "LexToken reg lx1 s1 = Inr (lx2, s2)" using Inr by (cases r) simp
      from LexToken_progress [OF wf s1(1) lt] s1(5) have "length s2 < length s" by simp
      moreover from J True have "J True lx1 s1" by simp
      from tok [OF this s1(1-4) lt] have "I lx2 s2" .
      ultimately have "LexLoop reg lx2 s2 = Some (Inl Unreachable)
          \<or> (\<exists>lx' s'. LexLoop reg lx2 s2 = Some (Inr lx') \<and> J False lx' s')"
        using less.hyps by blast
      moreover have "LexLoop reg lx s = LexLoop reg lx2 s2"
        using sk True lt by (subst LexLoop.simps) simp
      ultimately show ?thesis by simp
    qed
  qed
qed

lemma LexLoop_rule:
  assumes wf: "nonempty_spellings reg"
    and init: "I lx s"
    and skip: "\<And>lx s b lx' s'. I lx s \<Longrightarrow> SkipWhitespace lx s = (b, lx', s') \<Longrightarrow> J b lx' s'"
    and tok: "\<And>lx s lx' s'. J True lx s \<Longrightarrow> s \<noteq> [] \<Longrightarrow> hd s \<noteq> newline \<Longrightarrow> hd s \<noteq> CHR '' '' \<Longrightarrow>
                hd s \<noteq> tab \<Longrightarrow> LexToken reg lx s = Inr (lx', s') \<Longrightarrow> I lx' s'"
    and run: "LexLoop reg lx s = Some (Inr lx')"
  shows "\<exists>s'. J False lx' s'"
proof -
  have "LexLoop reg lx s = Some (Inl Unreachable)
       \<or> (\<exists>lx' s'. LexLoop reg lx s = Some (Inr lx') \<and> J False lx' s')"
    by (rule LexLoop_cases [where I = I and J = J, OF wf init skip tok])
  with run show ?thesis by auto
qed

lemma LexLoop_total:
  assumes "nonempty_spellings reg"
  shows "\<exists>r. LexLoop reg lx s = Some r"
proof -
  have "LexLoop reg lx s = Some (Inl Unreachable)
       \<or> (\<exists>lx' (s' :: string). LexLoop reg lx s = Some (Inr lx') \<and> True)"
    by (rule LexLoop_cases [where I = "\<lambda>_ _. True" and J = "\<lambda>_ _ _. True", OF assms]) simp_all
  then show ?thesis by auto
qed

lemma LexRun_Inr:
  "LexRun reg source = Some (Inr lx) \<Longrightarrow>
     \<exists>lx'. LexLoop reg InitLexer source = Some (Inr lx') \<and> lx = CloseInvalidOpenGroups reg Error lx'"
  by (cases "LexLoop reg InitLexer source"; cases "the (LexLoop reg InitLexer source)")
    (auto simp: LexRun_def)


section \<open>Running the lexer on concrete texts\<close>

lemmas lexer_eval = LexRun_def Lex_def LexLoop.simps SkipWhitespace.simps SkipComment_def LexToken_def
  LexSymbolToken_def LexKeywordOrIdentifier_def LexIntegerLiteral_def LexError_def
  CloseInvalidOpenGroups_def close_groups_loop.simps close_top_group_def InitLexer_def
  EmptyBuffer_def AddLine_def AddToken_def NewToken_def add_token_def update_token_info_def
  update_current_line_info_def current_line_info_def set_has_errors_def EmitError_def
  advance_def capture_indent_def set_line_length_def start_next_line_def
  GroupRoleOf_def IsOpeningSymbol_def IsClosingSymbol_def GetClosingSymbol_def
  GetFixedSpelling_def newline_def tab_def isDigit_def isAlpha_def isAlnum_def isWordChar_def
  TakeLeadingIntegerLiteral_def CheckDigitSequence_def digit_loop.simps placement_loop.simps
  CheckDigitSeparatorPlacement_def valid_digits_def digit_value_def getAsInteger_def
  add_error_token_and_continue_lexing_def add_integer_token_def GetOrCreateIdentifier_def
  unrecognized_char_def diagnose_irregular_digit_separators_def Let_def



text \<open>
  C2, as stated: lexing \<open>(]\<close> produces four tokens in total. The run produces three: the
  claim's own list of tokens has three entries.
\<close>

theorem Lex_mismatch_four_tokens_counterexample:
  "map_option (map_sum id (length \<circ> token_infos)) (Lex SampleRegistry ''(]'') \<noteq> Some (Inr 4)"
  by (simp add: lexer_eval SampleRegistry_def)

text \<open>
  C2, amended: lexing \<open>(]\<close> emits exactly two diagnostics, \<open>MismatchedClosing\<close> then
  \<open>UnmatchedClosing\<close>, and produces three tokens in total: the opening \<open>(\<close>, a synthetic
  \<open>)\<close> marked as recovery and cross-linked with the \<open>(\<close>, and the \<open>]\<close> rewritten in
  place to an \<open>Error\<close> token of length one. It holds with every table in which \<open>(\<close> is
  what the text \<open>(]\<close> starts with and opens a group, and \<open>]\<close> is a closing symbol other
  than the partner of \<open>(\<close>.
\<close>

theorem Lex_mismatch_then_unmatched:
  assumes "StartsWithSwitch (symbols reg) 0 ''(]'' = Symbol i"
    and "StartsWithSwitch (symbols reg) 0 '']'' = Symbol k"
    and "symbols reg ! i = (''('', OpeningGroup j)"
    and "symbols reg ! k = ('']'', ClosingGroup m)"
    and "k \<noteq> j"
  shows "map_option (map_sum id (\<lambda>lx. (emitter lx, token_infos (buffer lx)))) (LexRun reg ''(]'') =
         Some (Inr ([MismatchedClosing, UnmatchedClosing],
               [\<lparr>kind = Symbol i, is_recovery = False, token_line = 0, column = 0,
                  payload = PayloadClosingToken 1\<rparr>,
                 \<lparr>kind = Symbol j, is_recovery = True, token_line = 0, column = 1,
                  payload = PayloadOpeningToken 0\<rparr>,
                 \<lparr>kind = Error, is_recovery = False, token_line = 0, column = 1,
                  payload = PayloadErrorLength 1\<rparr>]))"
proof -
  from StartsWithSwitch_Symbol [OF assms(1)] have i: "i < length (symbols reg)" by simp
  from StartsWithSwitch_Symbol [OF assms(2)] have k: "k < length (symbols reg)" by simp
  show ?thesis using assms i k by (simp add: lexer_eval)
qed

theorem Lex_mismatch_then_unmatched_witness:
  "StartsWithSwitch (symbols SampleRegistry) 0 ''(]'' = Symbol 0
   \<and> symbols SampleRegistry ! 0 = (''('', OpeningGroup 1)
   \<and> symbols SampleRegistry ! 3 = ('']'', ClosingGroup 2)
   \<and> map_option (map_sum id (\<lambda>lx. (emitter lx, token_infos (buffer lx)))) (LexRun SampleRegistry ''(]'') =
         Some (Inr ([MismatchedClosing, UnmatchedClosing],
               [\<lparr>kind = Symbol 0, is_recovery = False, token_line = 0, column = 0,
                  payload = PayloadClosingToken 1\<rparr>,
                 \<lparr>kind = Symbol 1, is_recovery = True, token_line = 0, column = 1,
                  payload = PayloadOpeningToken 0\<rparr>,
                 \<lparr>kind = Error, is_recovery = False, token_line = 0, column = 1,
                  payload = PayloadErrorLength 1\<rparr>]))"
  using Lex_mismatch_then_unmatched [of SampleRegistry 0 3 1 2]
  by (simp add: SampleRegistry_def)

text \<open>
  C3: lexing \<open>1_000\<close> produces exactly one \<open>IntegerLiteral\<close> token whose stored value is
  1000, with no diagnostics; lexing \<open>1_00\<close> produces exactly one \<open>IntegerLiteral\<close> token
  whose stored value is 100 and emits exactly one \<open>IrregularDigitSeparators\<close> diagnostic.
  It holds with every table none of whose symbols the two texts start with.
\<close>

theorem Lex_digit_separators:
  assumes "StartsWithSwitch (symbols reg) 0 ''1_000'' = Error"
    and "StartsWithSwitch (symbols reg) 0 ''1_00'' = Error"
  shows "map_option (map_sum id (\<lambda>lx. (token_infos (buffer lx), int_literals (buffer lx), emitter lx)))
           (LexRun reg ''1_000'') =
         Some (Inr ([\<lparr>kind = IntegerLiteral, is_recovery = False, token_line = 0, column = 0,
                  payload = PayloadLiteralIndex 0\<rparr>], [1000], []))
       \<and> map_option (map_sum id (\<lambda>lx. (token_infos (buffer lx), int_literals (buffer lx), emitter lx)))
           (LexRun reg ''1_00'') =
         Some (Inr ([\<lparr>kind = IntegerLiteral, is_recovery = False, token_line = 0, column = 0,
                  payload = PayloadLiteralIndex 0\<rparr>], [100], [IrregularDigitSeparators 10]))"
  using assms by (simp add: lexer_eval)

theorem Lex_digit_separators_witness:
  "StartsWithSwitch (symbols SampleRegistry) 0 ''1_000'' = Error
   \<and> StartsWithSwitch (symbols SampleRegistry) 0 ''1_00'' = Error
   \<and> map_option (map_sum id (\<lambda>lx. (token_infos (buffer lx), int_literals (buffer lx), emitter lx)))
           (LexRun SampleRegistry ''1_000'') =
         Some (Inr ([\<lparr>kind = IntegerLiteral, is_recovery = False, token_line = 0, column = 0,
                  payload = PayloadLiteralIndex 0\<rparr>], [1000], []))
   \<and> map_option (map_sum id (\<lambda>lx. (token_infos (buffer lx), int_literals (buffer lx), emitter lx)))
           (LexRun SampleRegistry ''1_00'') =
         Some (Inr ([\<lparr>kind = IntegerLiteral, is_recovery = False, token_line = 0, column = 0,
                  payload = PayloadLiteralIndex 0\<rparr>], [100], [IrregularDigitSeparators 10]))"
  using Lex_digit_separators [of SampleRegistry]
  by (simp add: SampleRegistry_def)

section \<open>Whitespace skipping\<close>

text \<open>
  An induction rule for \<open>SkipWhitespace\<close>: \<open>P\<close> holds at the head of the loop, \<open>R\<close> after
  the comment branch, \<open>Q\<close> of the result.
\<close>

lemma SkipComment_noop:
  "\<not> prefix ''//'' s \<Longrightarrow> SkipComment lx s = (lx, s)"
  "set_indent lx \<Longrightarrow> SkipComment lx s = (lx, s)"
  by (simp_all add: SkipComment_def)

lemma SkipComment_rest:
  "snd (SkipComment lx s) = [] \<or> snd (SkipComment lx s) = s \<or> hd (snd (SkipComment lx s)) = newline"
proof -
  have "dropWhile (\<lambda>c. c \<noteq> newline) s = [] \<or> hd (dropWhile (\<lambda>c. c \<noteq> newline) s) = newline"
    using hd_dropWhile [of "\<lambda>c. c \<noteq> newline" s] by auto
  then show ?thesis by (auto simp: SkipComment_def Let_def)
qed

lemma SkipWhitespace_Nil: "SkipWhitespace lx [] = (False, set_line_length lx, [])"
  by (simp add: SkipWhitespace.simps)

lemma SkipWhitespace_rule:
  assumes init: "P lx s"
    and fin: "\<And>lx. P lx [] \<Longrightarrow> Q False (set_line_length lx) []"
    and comment: "\<And>lx s. P lx s \<Longrightarrow> s \<noteq> [] \<Longrightarrow> R (fst (SkipComment lx s)) (snd (SkipComment lx s))"
    and fin2: "\<And>lx. R lx [] \<Longrightarrow> Q False (set_line_length lx) []"
    and fin3: "\<And>lx. R lx [newline] \<Longrightarrow> Q False (set_line_length lx) []"
    and nl: "\<And>lx s. R lx (newline # s) \<Longrightarrow> s \<noteq> [] \<Longrightarrow> P (start_next_line (set_line_length lx)) s"
    and ws: "\<And>lx c s. R lx (c # s) \<Longrightarrow> c = CHR '' '' \<or> c = tab \<Longrightarrow> P (advance 1 lx) s"
    and tok: "\<And>lx c s. R lx (c # s) \<Longrightarrow> c \<noteq> newline \<Longrightarrow> c \<noteq> CHR '' '' \<Longrightarrow> c \<noteq> tab \<Longrightarrow>
                Q True lx (c # s)"
  shows "SkipWhitespace lx s = (b, lx', s') \<Longrightarrow> Q b lx' s'"
  using init
proof (induction lx s rule: SkipWhitespace.induct)
  case (1 lx s)
  note res = "1.prems"(1) and P = "1.prems"(2)
  show ?case
  proof (cases "s = []")
    case True
    with res P fin show ?thesis by (auto simp: SkipWhitespace_Nil)
  next
    case ne: False
    let ?lx1 = "fst (SkipComment lx s)" and ?t1 = "snd (SkipComment lx s)"
    have R: "R ?lx1 ?t1" by (rule comment [OF P ne])
    show ?thesis
    proof (cases ?t1)
      case Nil
      with res ne have "b = False" "lx' = set_line_length ?lx1" "s' = []"
        by (auto simp: SkipWhitespace.simps [of lx s] Let_def)
      with fin2 R Nil show ?thesis by simp
    next
      case (Cons c r)
      then have t1: "?t1 \<noteq> []" "hd ?t1 = c" "tl ?t1 = r" by simp_all
      show ?thesis
      proof (cases "c = newline")
        case True
        show ?thesis
        proof (cases "r = []")
          case True
          with res ne t1 \<open>c = newline\<close> have "b = False" "lx' = set_line_length ?lx1" "s' = []"
            by (auto simp: SkipWhitespace.simps [of lx s] Let_def)
          with fin3 R Cons True \<open>c = newline\<close> show ?thesis by simp
        next
          case False
          with res ne t1 \<open>c = newline\<close>
          have r: "SkipWhitespace (start_next_line (set_line_length ?lx1)) (tl ?t1) = (b, lx', s')"
            by (auto simp: SkipWhitespace.simps [of lx s] Let_def)
          have "P (start_next_line (set_line_length ?lx1)) (tl ?t1)"
            using nl [of ?lx1 r] R Cons True False by simp
          from "1.IH"(1) [OF ne refl refl t1(1) _ _ r this] True False t1 show ?thesis by simp
        qed
      next
        case nnl: False
        show ?thesis
        proof (cases "c = CHR '' '' \<or> c = tab")
          case True
          with res ne t1 nnl
          have r: "SkipWhitespace (advance 1 ?lx1) (tl ?t1) = (b, lx', s')"
            by (auto simp: SkipWhitespace.simps [of lx s] Let_def)
          have "P (advance 1 ?lx1) (tl ?t1)"
            using ws [of ?lx1 c r] R Cons True by simp
          from "1.IH"(2) [OF ne refl refl t1(1) _ _ r this] True nnl t1 show ?thesis by simp
        next
          case False
          with res ne t1 nnl have "b = True" "lx' = ?lx1" "s' = ?t1"
            by (auto simp: SkipWhitespace.simps [of lx s] Let_def)
          with tok [of ?lx1 c r] R Cons nnl False show ?thesis by simp
        qed
      qed
    qed
  qed
qed

lemma SkipWhitespace_SkipComment:
  "SkipWhitespace lx s = SkipWhitespace (fst (SkipComment lx s)) (snd (SkipComment lx s))"
proof (cases "s = [] \<or> \<not> prefix ''//'' s \<or> set_indent lx")
  case True
  then show ?thesis by (auto simp: SkipComment_def)
next
  case False
  let ?lx1 = "fst (SkipComment lx s)" and ?t1 = "snd (SkipComment lx s)"
  from False have t1: "?t1 = dropWhile (\<lambda>c. c \<noteq> newline) s" by (simp add: SkipComment_def Let_def)
  have "?t1 = [] \<or> hd ?t1 = newline"
    unfolding t1 using hd_dropWhile [of "\<lambda>c. c \<noteq> newline" s] by auto
  then have "\<not> prefix ''//'' ?t1" by (cases ?t1) (auto simp: newline_def)
  then have n: "SkipComment ?lx1 ?t1 = (?lx1, ?t1)" by (rule SkipComment_noop)
  from False have ne: "s \<noteq> []" by simp
  show ?thesis
    by (subst SkipWhitespace.simps [of lx s], subst (2) SkipWhitespace.simps) (simp add: n ne Let_def)
qed


lemma SkipComment_DocComment:
  assumes "\<not> set_indent lx" "prefix ''///'' s"
  shows "SkipComment lx s =
     (advance (length (takeWhile (\<lambda>c. c \<noteq> newline) s))
        (add_token (NewToken DocComment (current_line lx) (current_column lx))
           (capture_indent (current_column lx) lx)),
      dropWhile (\<lambda>c. c \<noteq> newline) s)"
proof -
  from assms(2) have "prefix ''//'' s" by (auto simp: prefix_def)
  with assms show ?thesis by (simp add: SkipComment_def capture_indent_def Let_def)
qed

definition frame_from :: "Lexer \<Rightarrow> Lexer \<Rightarrow> bool" where
  "frame_from lx lx' =
     (current_line lx \<le> current_line lx'
      \<and> current_line lx' < length (line_infos (buffer lx'))
      \<and> (\<forall>l < current_line lx. line_infos (buffer lx') ! l = line_infos (buffer lx) ! l)
      \<and> (\<forall>l \<le> current_line lx. start (line_infos (buffer lx') ! l) = start (line_infos (buffer lx) ! l))
      \<and> (\<exists>extra. token_infos (buffer lx') = token_infos (buffer lx) @ extra
            \<and> (\<forall>t \<in> set extra. current_line lx \<le> token_line t)))"

lemma SkipWhitespace_frame:
  assumes "SkipWhitespace lx s = (b, lx', s')" "current_line lx < length (line_infos (buffer lx))"
  shows "frame_from lx lx'"
proof -
  have init: "frame_from lx lx" using assms(2) by (simp add: frame_from_def)
  have fin: "frame_from lx (set_line_length l)" if "frame_from lx l" for l
    using that by (auto simp: frame_from_def set_line_length_def update_current_line_info_def
        current_line_info_def nth_list_update)
  have com: "frame_from lx (fst (SkipComment l s))" if "frame_from lx l" for l s
    using that by (auto simp: frame_from_def SkipComment_def Let_def advance_def add_token_def
        AddToken_def NewToken_def update_current_line_info_def current_line_info_def nth_list_update)
  have nl: "frame_from lx (start_next_line (set_line_length l))" if "frame_from lx l" for l
    using that by (auto simp: frame_from_def set_line_length_def update_current_line_info_def
        current_line_info_def nth_list_update start_next_line_def AddLine_def Let_def nth_append)
  have ws: "frame_from lx (advance 1 l)" if "frame_from lx l" for l
    using that by (simp add: frame_from_def advance_def)
  show ?thesis
    by (rule SkipWhitespace_rule [where P = "\<lambda>l _. frame_from lx l" and R = "\<lambda>l _. frame_from lx l"
          and Q = "\<lambda>_ l _. frame_from lx l", OF init fin com fin fin nl ws _ assms(1)])
qed


lemma take_length_takeWhile: "take (length (takeWhile P s)) s = takeWhile P s"
  by (induction s) auto


lemma SkipWhitespace_at_newline:
  assumes "set_indent lx"
  shows "SkipWhitespace lx [] = (False, set_line_length lx, [])"
    and "SkipWhitespace lx [newline] = (False, set_line_length lx, [])"
    and "r \<noteq> [] \<Longrightarrow> SkipWhitespace lx (newline # r) = SkipWhitespace (start_next_line (set_line_length lx)) r"
  using assms by (simp_all add: SkipWhitespace.simps [of lx "[]"] SkipWhitespace.simps [of lx "[newline]"]
      SkipWhitespace.simps [of lx "newline # r"] SkipComment_noop)

lemma DocComment_line:
  assumes ni: "\<not> set_indent lx" and pre: "prefix ''///'' s"
    and cl: "current_line lx < length (line_infos (buffer lx))"
    and res: "SkipWhitespace lx s = (b, lx', s')"
  shows "\<exists>extra. token_infos (buffer lx') =
            token_infos (buffer lx) @ NewToken DocComment (current_line lx) (current_column lx) # extra
          \<and> (\<forall>t \<in> set extra. current_line lx < token_line t)"
    and "line_length (line_infos (buffer lx') ! current_line lx) =
           current_column lx + int (length (takeWhile (\<lambda>c. c \<noteq> newline) s))"
    and "start (line_infos (buffer lx') ! current_line lx) = start (line_infos (buffer lx) ! current_line lx)"
proof -
  let ?n = "length (takeWhile (\<lambda>c. c \<noteq> newline) s)"
  define lx1 where "lx1 = advance ?n (add_token (NewToken DocComment (current_line lx) (current_column lx))
           (capture_indent (current_column lx) lx))"
  define rest where "rest = dropWhile (\<lambda>c. c \<noteq> newline) s"
  define lx2 where "lx2 = set_line_length lx1"
  have sc: "SkipComment lx s = (lx1, rest)"
    unfolding lx1_def rest_def by (rule SkipComment_DocComment [OF ni pre])
  have r1: "SkipWhitespace lx1 rest = (b, lx', s')"
    using res SkipWhitespace_SkipComment [of lx s] by (simp add: sc)
  have si: "set_indent lx1" by (simp add: lx1_def advance_def add_token_def capture_indent_def)
  have tok2: "token_infos (buffer lx2) =
      token_infos (buffer lx) @ [NewToken DocComment (current_line lx) (current_column lx)]"
    by (simp add: lx2_def lx1_def set_line_length_def update_current_line_info_def advance_def
        add_token_def AddToken_def capture_indent_def)
  have len2: "line_length (line_infos (buffer lx2) ! current_line lx) = current_column lx + int ?n"
    using cl by (simp add: lx2_def lx1_def set_line_length_def update_current_line_info_def advance_def
        add_token_def AddToken_def capture_indent_def current_line_info_def)
  have st2: "start (line_infos (buffer lx2) ! current_line lx) = start (line_infos (buffer lx) ! current_line lx)"
    using cl by (simp add: lx2_def lx1_def set_line_length_def update_current_line_info_def advance_def
        add_token_def AddToken_def capture_indent_def current_line_info_def)
  have cl2: "current_line lx2 = current_line lx"
    "length (line_infos (buffer lx2)) = length (line_infos (buffer lx))"
    by (simp_all add: lx2_def lx1_def set_line_length_def update_current_line_info_def advance_def
        add_token_def AddToken_def capture_indent_def)
  have "rest = [] \<or> hd rest = newline"
    unfolding rest_def using hd_dropWhile [of "\<lambda>c. c \<noteq> newline" s] by auto
  then consider (a) "rest = []" | (a') "rest = [newline]" | (b) r where "rest = newline # r" "r \<noteq> []"
    by (cases rest) auto
  then have "(\<exists>extra. token_infos (buffer lx') =
            token_infos (buffer lx) @ NewToken DocComment (current_line lx) (current_column lx) # extra
          \<and> (\<forall>t \<in> set extra. current_line lx < token_line t))
     \<and> line_length (line_infos (buffer lx') ! current_line lx) = current_column lx + int ?n
     \<and> start (line_infos (buffer lx') ! current_line lx) = start (line_infos (buffer lx) ! current_line lx)"
  proof cases
    case a
    with r1 SkipWhitespace_at_newline(1) [OF si] have "lx' = lx2" by (simp add: lx2_def)
    with tok2 len2 st2 show ?thesis by simp
  next
    case a'
    with r1 SkipWhitespace_at_newline(2) [OF si] have "lx' = lx2" by (simp add: lx2_def)
    with tok2 len2 st2 show ?thesis by simp
  next
    case b
    with r1 SkipWhitespace_at_newline(3) [OF si, of r]
    have r2: "SkipWhitespace (start_next_line lx2) r = (b, lx', s')" by (simp add: lx2_def)
    define lx3 where "lx3 = start_next_line lx2"
    have cl3: "current_line lx3 = length (line_infos (buffer lx))"
      "length (line_infos (buffer lx3)) = Suc (length (line_infos (buffer lx)))"
      using cl2 by (simp_all add: lx3_def start_next_line_def AddLine_def Let_def)
    have l3: "line_infos (buffer lx3) ! current_line lx = line_infos (buffer lx2) ! current_line lx"
      using cl cl2 by (simp add: lx3_def start_next_line_def AddLine_def Let_def nth_append)
    have tok3: "token_infos (buffer lx3) = token_infos (buffer lx2)"
      by (simp add: lx3_def start_next_line_def AddLine_def Let_def)
    from SkipWhitespace_frame [OF r2 [folded lx3_def]] cl3 have fr: "frame_from lx3 lx'" by simp
    from fr cl cl3 have "line_infos (buffer lx') ! current_line lx = line_infos (buffer lx3) ! current_line lx"
      unfolding frame_from_def by metis
    moreover from fr obtain extra where "token_infos (buffer lx') = token_infos (buffer lx3) @ extra"
      "\<forall>t \<in> set extra. current_line lx3 \<le> token_line t" unfolding frame_from_def by blast
    ultimately show ?thesis using l3 tok3 tok2 len2 st2 cl3 cl by auto
  qed
  then show "\<exists>extra. token_infos (buffer lx') =
            token_infos (buffer lx) @ NewToken DocComment (current_line lx) (current_column lx) # extra
          \<and> (\<forall>t \<in> set extra. current_line lx < token_line t)"
    and "line_length (line_infos (buffer lx') ! current_line lx) = current_column lx + int ?n"
    and "start (line_infos (buffer lx') ! current_line lx) = start (line_infos (buffer lx) ! current_line lx)"
    by blast+
qed

text \<open>
  C4, as stated: a comment introduced by two slashes is skipped as whitespace also when a
  token has already set the indent of the line. The source takes the comment branch only
  while no token has set the indent (\<^verbatim>\<open>startswith("//") && !set_indent\<close>: a comment must
  be the only non-whitespace on its line), so after the identifier \<open>a\<close> the slashes of
  \<open>a // b\<close> are left to the token strategies: the run has three tokens, not one.
\<close>

theorem Lex_comment_after_token_counterexample:
  "map_option (map_sum id (map kind \<circ> token_infos)) (Lex SampleRegistry ''a // b'') =
     Some (Inr [Identifier, Error, Identifier])"
  by (simp add: lexer_eval SampleRegistry_def)

text \<open>
  C4, amended: during whitespace skipping, while no token has set the indent of the
  line, a comment introduced by two slashes (and not three) extends to the end of the
  line and is skipped as whitespace, and a three-slash prefix followed by a space is
  lexed as one \<open>DocComment\<close> token, the only token of its line from there on, whose text
  is the remainder of the line; once the indent of the line is set, two slashes are not
  a comment: whitespace skipping stops at them and leaves them to the token strategies.
\<close>

theorem SkipWhitespace_comments:
  "(\<not> set_indent lx \<and> prefix ''//'' s \<and> \<not> prefix ''///'' s \<longrightarrow>
      SkipWhitespace lx s =
        SkipWhitespace (advance (length (takeWhile (\<lambda>c. c \<noteq> newline) s)) lx)
          (dropWhile (\<lambda>c. c \<noteq> newline) s))
   \<and> (\<not> set_indent lx \<and> prefix ''/// '' s \<and> current_line lx < length (line_infos (buffer lx))
        \<and> source = consumed @ s \<and> start (current_line_info lx) + current_column lx = int (length consumed) \<longrightarrow>
      (\<exists>extra. token_infos (buffer (fst (snd (SkipWhitespace lx s)))) =
          token_infos (buffer lx) @ NewToken DocComment (current_line lx) (current_column lx) # extra
          \<and> (\<forall>t \<in> set extra. current_line lx < token_line t))
      \<and> GetTokenText reg source (buffer (fst (snd (SkipWhitespace lx s)))) (length (token_infos (buffer lx)))
          = takeWhile (\<lambda>c. c \<noteq> newline) s)
   \<and> (set_indent lx \<and> prefix ''//'' s \<longrightarrow> SkipWhitespace lx s = (True, lx, s))"
proof (intro conjI impI)
  assume "\<not> set_indent lx \<and> prefix ''//'' s \<and> \<not> prefix ''///'' s"
  then have "SkipComment lx s = (advance (length (takeWhile (\<lambda>c. c \<noteq> newline) s)) lx,
      dropWhile (\<lambda>c. c \<noteq> newline) s)" by (simp add: SkipComment_def)
  with SkipWhitespace_SkipComment [of lx s]
  show "SkipWhitespace lx s =
        SkipWhitespace (advance (length (takeWhile (\<lambda>c. c \<noteq> newline) s)) lx)
          (dropWhile (\<lambda>c. c \<noteq> newline) s)" by simp
next
  assume a: "\<not> set_indent lx \<and> prefix ''/// '' s \<and> current_line lx < length (line_infos (buffer lx))
        \<and> source = consumed @ s \<and> start (current_line_info lx) + current_column lx = int (length consumed)"
  obtain b lx' s' where res: "SkipWhitespace lx s = (b, lx', s')" by (cases "SkipWhitespace lx s")
  from a have p3: "prefix ''///'' s" by (auto simp: prefix_def)
  from a have ni: "\<not> set_indent lx" and cl: "current_line lx < length (line_infos (buffer lx))" by simp_all
  note d = DocComment_line [OF ni p3 cl res]
  from d(1) show "\<exists>extra. token_infos (buffer (fst (snd (SkipWhitespace lx s)))) =
          token_infos (buffer lx) @ NewToken DocComment (current_line lx) (current_column lx) # extra
          \<and> (\<forall>t \<in> set extra. current_line lx < token_line t)" by (simp add: res)
  from d(1) obtain extra where t: "token_infos (buffer lx') =
      token_infos (buffer lx) @ NewToken DocComment (current_line lx) (current_column lx) # extra" by blast
  let ?n = "length (takeWhile (\<lambda>c. c \<noteq> newline) s)"
  from a have st: "start (line_infos (buffer lx) ! current_line lx) + current_column lx = int (length consumed)"
    by (simp add: current_line_info_def)
  then have en: "start (line_infos (buffer lx) ! current_line lx) + (current_column lx + int ?n)
      = int (length consumed) + int ?n" by linarith
  have "GetTokenText reg source (buffer lx') (length (token_infos (buffer lx))) =
        slice source (int (length consumed)) (int (length consumed) + int ?n)"
    using d(2,3) by (simp add: GetTokenText_def t NewToken_def GetFixedSpelling_def Let_def st en)
  also have "\<dots> = takeWhile (\<lambda>c. c \<noteq> newline) s"
    using a by (simp add: slice_def nat_add_distrib take_length_takeWhile)
  finally show "GetTokenText reg source (buffer (fst (snd (SkipWhitespace lx s)))) (length (token_infos (buffer lx)))
          = takeWhile (\<lambda>c. c \<noteq> newline) s" by (simp add: res)
next
  assume "set_indent lx \<and> prefix ''//'' s"
  then have "SkipComment lx s = (lx, s)" "s \<noteq> []" "hd s = CHR ''/''"
    by (auto simp: SkipComment_noop prefix_def)
  then show "SkipWhitespace lx s = (True, lx, s)"
    by (simp add: SkipWhitespace.simps [of lx s] newline_def tab_def)
qed

theorem SkipWhitespace_comments_witness:
  "SkipWhitespace InitLexer ''// c'' = SkipWhitespace (advance 4 InitLexer) []
   \<and> GetTokenText SampleRegistry ''/// d'' (buffer (fst (snd (SkipWhitespace InitLexer ''/// d'')))) 0 = ''/// d''
   \<and> SkipWhitespace (InitLexer\<lparr>set_indent := True\<rparr>) ''// c'' = (True, InitLexer\<lparr>set_indent := True\<rparr>, ''// c'')"
  using SkipWhitespace_comments [where lx = InitLexer and s = "''// c''"]
    SkipWhitespace_comments [where lx = InitLexer and s = "''/// d''" and source = "''/// d''"
      and consumed = "[]" and reg = SampleRegistry]
    SkipWhitespace_comments [where lx = "InitLexer\<lparr>set_indent := True\<rparr>" and s = "''// c''"]
  by (simp add: InitLexer_def AddLine_def EmptyBuffer_def current_line_info_def newline_def advance_def)


section \<open>The effect of one token strategy\<close>

text \<open>The digit checks write diagnostics and the error flag, nothing else.\<close>

definition diag_only :: "Lexer \<Rightarrow> Lexer \<Rightarrow> bool" where
  "diag_only lx lx' =
     (line_infos (buffer lx') = line_infos (buffer lx)
      \<and> token_infos (buffer lx') = token_infos (buffer lx)
      \<and> identifier_infos (buffer lx') = identifier_infos (buffer lx)
      \<and> identifier_map (buffer lx') = identifier_map (buffer lx)
      \<and> int_literals (buffer lx') = int_literals (buffer lx)
      \<and> errs lx' = errs lx
      \<and> current_line lx' = current_line lx
      \<and> current_column lx' = current_column lx
      \<and> set_indent lx' = set_indent lx
      \<and> open_groups lx' = open_groups lx)"

lemma diag_only_refl: "diag_only lx lx"
  by (simp add: diag_only_def)

lemma diag_only_trans: "diag_only a b \<Longrightarrow> diag_only b c \<Longrightarrow> diag_only a c"
  by (simp add: diag_only_def)

lemma diag_only_EmitError: "diag_only lx (EmitError d lx)"
  by (simp add: diag_only_def EmitError_def)

lemma diag_only_set_has_errors: "diag_only lx (set_has_errors lx)"
  by (simp add: diag_only_def set_has_errors_def)

lemma diag_only_diagnose: "diag_only lx (diagnose_irregular_digit_separators radix lx)"
  unfolding diagnose_irregular_digit_separators_def
  by (rule diag_only_trans [OF diag_only_EmitError diag_only_set_has_errors])

lemma placement_loop_diag: "diag_only lx (placement_loop tx radix pos r lx)"
proof (induction tx radix pos r lx rule: placement_loop.induct)
  case (1 tx radix pos r lx)
  show ?case
    using 1 by (subst placement_loop.simps) (auto simp: Let_def diag_only_diagnose diag_only_refl)
qed

lemma digit_loop_diag: "diag_only lx (snd (snd (digit_loop tx radix i n lx)))"
proof (induction tx radix i n lx rule: digit_loop.induct)
  case (1 tx radix i n lx)
  show ?case
  proof (cases "i \<ge> length tx")
    case True
    then show ?thesis by (subst digit_loop.simps) (simp add: diag_only_refl)
  next
    case False
    show ?thesis
    proof (cases "valid_digits radix (tx ! i)")
      case True
      with False "1.IH"(1) show ?thesis by (subst digit_loop.simps) (simp add: Let_def)
    next
      case nv: False
      show ?thesis
      proof (cases "tx ! i = CHR ''_''")
        case True
        let ?lx' = "if i = 0 \<or> tx ! (i - 1) = CHR ''_'' \<or> i + 1 = length tx
               then set_has_errors (EmitError InvalidDigitSeparator lx) else lx"
        have a: "diag_only lx ?lx'"
          by (auto intro: diag_only_refl diag_only_trans [OF diag_only_EmitError diag_only_set_has_errors])
        from "1.IH"(2) [OF False refl nv True]
        have "diag_only ?lx' (snd (snd (digit_loop tx radix (i + 1) (n + 1) ?lx')))" .
        from diag_only_trans [OF a this] False nv True show ?thesis
          by (subst digit_loop.simps) (simp add: Let_def)
      next
        case False
        with \<open>\<not> i \<ge> length tx\<close> nv show ?thesis
          by (subst digit_loop.simps) (simp add: Let_def diag_only_EmitError)
      qed
    qed
  qed
qed

lemma CheckDigitSequence_diag: "diag_only lx (snd (snd (CheckDigitSequence tx radix lx)))"
proof (cases "tx = []")
  case True
  then show ?thesis by (simp add: CheckDigitSequence_def diag_only_EmitError)
next
  case False
  obtain ok n lx1 where d: "digit_loop tx radix 0 0 lx = (ok, n, lx1)"
    by (cases "digit_loop tx radix 0 0 lx")
  from digit_loop_diag [of lx tx radix 0 0] d have a: "diag_only lx lx1" by simp
  have b: "diag_only lx1 (CheckDigitSeparatorPlacement tx radix n lx1)"
    by (simp add: CheckDigitSeparatorPlacement_def placement_loop_diag)
  from False d a diag_only_trans [OF a b] show ?thesis
    by (simp add: CheckDigitSequence_def)
qed

lemma LexIntegerLiteral_lexer:
  assumes "LexIntegerLiteral lx s = Inr (True, lx', s')"
  shows "\<exists>lx2 v. diag_only (capture_indent (current_column lx)
                     (advance (length (TakeLeadingIntegerLiteral s)) lx)) lx2
    \<and> (lx' = add_error_token_and_continue_lexing (current_column lx)
                (length (TakeLeadingIntegerLiteral s)) lx2
       \<or> lx' = add_integer_token (current_column lx) v lx2)"
proof -
  let ?t = "TakeLeadingIntegerLiteral s"
  let ?lx1 = "capture_indent (current_column lx) (advance (length ?t) lx)"
  let ?base = "(if length ?t \<ge> 2 \<and> ?t ! 0 = CHR ''0'' then
                   (if ?t ! 1 = CHR ''x'' then Some (16, drop 2 ?t)
                    else if ?t ! 1 = CHR ''b'' then Some (2, drop 2 ?t)
                    else None)
                 else Some (10::nat, ?t))"
  from LexIntegerLiteral_Inr(1) [OF assms] have ne: "?t \<noteq> []" by simp
  show ?thesis
  proof (cases ?base)
    case None
    then have "lx' =
        add_error_token_and_continue_lexing (current_column lx) (length ?t) (EmitError UnknownBaseSpecifier ?lx1)"
      using assms ne by (simp add: LexIntegerLiteral_def Let_def)
    with diag_only_EmitError [of ?lx1] show ?thesis by blast
  next
    case (Some rd)
    obtain radix digits where rd: "rd = (radix, digits)" by (cases rd)
    obtain ok sep lx2 where c: "CheckDigitSequence digits radix ?lx1 = (ok, sep, lx2)"
      by (cases "CheckDigitSequence digits radix ?lx1")
    from CheckDigitSequence_diag [of ?lx1 digits radix] c have d: "diag_only ?lx1 lx2" by simp
    from Some rd c assms ne have
      "lx' = add_error_token_and_continue_lexing (current_column lx) (length ?t) lx2
       \<or> (\<exists>v. lx' = add_integer_token (current_column lx) v lx2)"
      by (auto simp: LexIntegerLiteral_def Let_def split: if_splits option.splits)
    with d show ?thesis by blast
  qed
qed

text \<open>An induction rule for the loop of \<open>CloseInvalidOpenGroups\<close>.\<close>

lemma close_groups_loop_rule:
  assumes "P lx"
    and step: "\<And>lx. P lx \<Longrightarrow> open_groups lx \<noteq> [] \<Longrightarrow>
           k \<noteq> GetClosingSymbol reg (kind (token_infos (buffer lx) ! hd (open_groups lx))) \<Longrightarrow>
           P (close_top_group reg lx)"
  shows "P (close_groups_loop reg k lx)"
  using assms
proof (induction reg k lx rule: close_groups_loop.induct)
  case (1 reg k lx)
  show ?case
  proof (cases "open_groups lx = [] \<or>
      k = GetClosingSymbol reg (kind (token_infos (buffer lx) ! hd (open_groups lx)))")
    case True
    with "1.prems"(1) show ?thesis by (subst close_groups_loop.simps) auto
  next
    case False
    then have a: "open_groups lx \<noteq> []"
      "k \<noteq> GetClosingSymbol reg (kind (token_infos (buffer lx) ! hd (open_groups lx)))" by simp_all
    have "P (close_top_group reg lx)" by (rule "1.prems"(2) [OF "1.prems"(1) a])
    from "1.IH" [OF a this "1.prems"(2)] a show ?thesis
      by (subst close_groups_loop.simps) simp
  qed
qed

lemma close_groups_loop_stops:
  "open_groups (close_groups_loop reg k lx) = [] \<or>
   k = GetClosingSymbol reg (kind (token_infos (buffer (close_groups_loop reg k lx))
          ! hd (open_groups (close_groups_loop reg k lx))))"
proof (induction reg k lx rule: close_groups_loop.induct)
  case (1 reg k lx)
  show ?case
  proof (cases "open_groups lx = [] \<or>
      k = GetClosingSymbol reg (kind (token_infos (buffer lx) ! hd (open_groups lx)))")
    case True
    then have "close_groups_loop reg k lx = lx" by (subst close_groups_loop.simps) auto
    with True show ?thesis by simp
  next
    case False
    then have "close_groups_loop reg k lx = close_groups_loop reg k (close_top_group reg lx)"
      by (subst close_groups_loop.simps) auto
    with "1.IH" False show ?thesis by simp
  qed
qed

lemma CloseInvalidOpenGroups_rule:
  assumes "P lx"
    and "\<And>lx. P lx \<Longrightarrow> open_groups lx \<noteq> [] \<Longrightarrow>
           k \<noteq> GetClosingSymbol reg (kind (token_infos (buffer lx) ! hd (open_groups lx))) \<Longrightarrow>
           P (close_top_group reg lx)"
  shows "P (CloseInvalidOpenGroups reg k lx)"
proof (cases "\<not> IsClosingSymbol reg k \<and> k \<noteq> Error")
  case True
  with assms(1) show ?thesis by (simp add: CloseInvalidOpenGroups_def)
next
  case False
  then have "CloseInvalidOpenGroups reg k lx = close_groups_loop reg k lx"
    by (auto simp: CloseInvalidOpenGroups_def)
  moreover have "P (close_groups_loop reg k lx)"
    by (rule close_groups_loop_rule [of P lx k reg, OF assms])
  ultimately show ?thesis by simp
qed























section \<open>Line records\<close>

















section \<open>Bracket groups\<close>

text \<open>
  In a real table the partner that an opening symbol declares is a closing symbol.
\<close>

definition group_partners_closing :: "Registry \<Rightarrow> bool" where
  "group_partners_closing reg =
     list_all (\<lambda>e. case snd e of OpeningGroup j \<Rightarrow> IsClosingSymbol reg (Symbol j) | _ \<Rightarrow> True)
       (symbols reg)"

lemma opening_not_closing: "IsOpeningSymbol reg k \<Longrightarrow> \<not> IsClosingSymbol reg k"
  by (auto simp: IsOpeningSymbol_def IsClosingSymbol_def split: GroupRole.splits)

lemma opening_partner_not_Error: "IsOpeningSymbol reg k \<Longrightarrow> GetClosingSymbol reg k \<noteq> Error"
  by (auto simp: IsOpeningSymbol_def GetClosingSymbol_def split: GroupRole.splits)

lemma opening_partner_closing:
  assumes "group_partners_closing reg" "IsOpeningSymbol reg k"
  shows "IsClosingSymbol reg (GetClosingSymbol reg k)"
proof -
  from assms(2) obtain i j where k: "k = Symbol i" "i < length (symbols reg)"
    "snd (symbols reg ! i) = OpeningGroup j"
    by (auto simp: IsOpeningSymbol_def GroupRoleOf_def split: GroupRole.splits TokenKind.splits if_splits)
  then have "symbols reg ! i \<in> set (symbols reg)" by simp
  with assms(1) k(3) have "IsClosingSymbol reg (Symbol j)"
    by (auto simp: group_partners_closing_def list_all_iff)
  with k show ?thesis by (simp add: GetClosingSymbol_def GroupRoleOf_def)
qed

lemma structural_not_group:
  "\<not> IsOpeningSymbol reg (Keyword i)" "\<not> IsClosingSymbol reg (Keyword i)"
  "\<not> IsOpeningSymbol reg Identifier" "\<not> IsClosingSymbol reg Identifier"
  "\<not> IsOpeningSymbol reg IntegerLiteral" "\<not> IsClosingSymbol reg IntegerLiteral"
  "\<not> IsOpeningSymbol reg DocComment" "\<not> IsClosingSymbol reg DocComment"
  "\<not> IsOpeningSymbol reg Error" "\<not> IsClosingSymbol reg Error"
  by (simp_all add: IsOpeningSymbol_def IsClosingSymbol_def GroupRoleOf_def)

text \<open>
  Token \<open>i\<close> opens the group that token \<open>j\<close> closes: each names the other, and the kind of
  \<open>j\<close> is the closing symbol of the kind of \<open>i\<close>.
\<close>

definition matched :: "Registry \<Rightarrow> TokenInfo list \<Rightarrow> nat \<Rightarrow> nat \<Rightarrow> bool" where
  "matched reg toks i j =
     (i < j \<and> j < length toks
      \<and> payload (toks ! i) = PayloadClosingToken j
      \<and> payload (toks ! j) = PayloadOpeningToken i
      \<and> IsOpeningSymbol reg (kind (toks ! i))
      \<and> kind (toks ! j) = GetClosingSymbol reg (kind (toks ! i)))"

definition brk :: "Registry \<Rightarrow> TokenInfo list \<Rightarrow> nat list \<Rightarrow> bool" where
  "brk reg toks og =
     (distinct og
      \<and> (\<forall>g \<in> set og. g < length toks \<and> IsOpeningSymbol reg (kind (toks ! g))
            \<and> payload (toks ! g) = PayloadNone)
      \<and> (\<forall>i < length toks. IsOpeningSymbol reg (kind (toks ! i)) \<longrightarrow>
            i \<in> set og \<or> (\<exists>j. matched reg toks i j))
      \<and> (\<forall>j < length toks. IsClosingSymbol reg (kind (toks ! j)) \<longrightarrow> (\<exists>i. matched reg toks i j)))"

definition brackets_inv :: "Registry \<Rightarrow> Lexer \<Rightarrow> bool" where
  "brackets_inv reg lx = brk reg (token_infos (buffer lx)) (open_groups lx)"

lemma matched_append: "matched reg toks i j \<Longrightarrow> matched reg (toks @ xs) i j"
  by (auto simp: matched_def nth_append)

lemma brk_append_plain:
  assumes "brk reg toks og" "\<not> IsOpeningSymbol reg (kind t)" "\<not> IsClosingSymbol reg (kind t)"
  shows "brk reg (toks @ [t]) og"
  unfolding brk_def
proof (intro conjI ballI allI impI)
  show "distinct og" using assms(1) by (simp add: brk_def)
next
  fix g assume "g \<in> set og"
  with assms(1) show "g < length (toks @ [t])" "IsOpeningSymbol reg (kind ((toks @ [t]) ! g))"
    "payload ((toks @ [t]) ! g) = PayloadNone"
    by (auto simp: brk_def nth_append)
next
  fix i assume i: "i < length (toks @ [t])" "IsOpeningSymbol reg (kind ((toks @ [t]) ! i))"
  with assms(2) have "i < length toks" by (cases "i = length toks") (auto simp: nth_append)
  with i assms(1) have "i \<in> set og \<or> (\<exists>j. matched reg toks i j)" by (auto simp: brk_def nth_append)
  then show "i \<in> set og \<or> (\<exists>j. matched reg (toks @ [t]) i j)" by (auto intro: matched_append)
next
  fix j assume j: "j < length (toks @ [t])" "IsClosingSymbol reg (kind ((toks @ [t]) ! j))"
  with assms(3) have "j < length toks" by (cases "j = length toks") (auto simp: nth_append)
  with j assms(1) have "\<exists>i. matched reg toks i j" by (auto simp: brk_def nth_append)
  then show "\<exists>i. matched reg (toks @ [t]) i j" by (auto intro: matched_append)
qed

lemma brk_append_opening:
  assumes "brk reg toks og" "IsOpeningSymbol reg (kind t)" "payload t = PayloadNone"
  shows "brk reg (toks @ [t]) (length toks # og)"
  unfolding brk_def
proof (intro conjI ballI allI impI)
  show "distinct (length toks # og)" using assms(1) by (auto simp: brk_def)
next
  fix g assume "g \<in> set (length toks # og)"
  with assms show "g < length (toks @ [t])" "IsOpeningSymbol reg (kind ((toks @ [t]) ! g))"
    "payload ((toks @ [t]) ! g) = PayloadNone"
    by (auto simp: brk_def nth_append)
next
  fix i assume i: "i < length (toks @ [t])" "IsOpeningSymbol reg (kind ((toks @ [t]) ! i))"
  show "i \<in> set (length toks # og) \<or> (\<exists>j. matched reg (toks @ [t]) i j)"
  proof (cases "i = length toks")
    case True
    then show ?thesis by simp
  next
    case False
    with i have "i < length toks" by simp
    with i assms(1) have "i \<in> set og \<or> (\<exists>j. matched reg toks i j)" by (auto simp: brk_def nth_append)
    then show ?thesis by (auto intro: matched_append)
  qed
next
  fix j assume j: "j < length (toks @ [t])" "IsClosingSymbol reg (kind ((toks @ [t]) ! j))"
  with assms(2) have "j < length toks"
    by (cases "j = length toks") (auto simp: nth_append dest: opening_not_closing)
  with j assms(1) have "\<exists>i. matched reg toks i j" by (auto simp: brk_def nth_append)
  then show "\<exists>i. matched reg (toks @ [t]) i j" by (auto intro: matched_append)
qed

text \<open>The token list after a closing token is appended and cross-linked with token \<open>g\<close>.\<close>

definition link_tokens :: "TokenInfo list \<Rightarrow> nat \<Rightarrow> TokenInfo \<Rightarrow> TokenInfo list" where
  "link_tokens toks g new =
     ((toks @ [new])[g := ((toks @ [new]) ! g)\<lparr>payload := PayloadClosingToken (length toks)\<rparr>])
       [length toks := new\<lparr>payload := PayloadOpeningToken g\<rparr>]"

lemma link_tokens_nth:
  assumes "g < length toks" "x \<le> length toks"
  shows "link_tokens toks g new ! x =
     (if x = length toks then new\<lparr>payload := PayloadOpeningToken g\<rparr>
      else if x = g then (toks ! g)\<lparr>payload := PayloadClosingToken (length toks)\<rparr>
      else toks ! x)"
  using assms by (auto simp: link_tokens_def nth_list_update nth_append)

lemma link_tokens_length: "length (link_tokens toks g new) = Suc (length toks)"
  by (simp add: link_tokens_def)

lemma brk_link:
  assumes b: "brk reg toks (g # rest)"
    and k: "kind new = GetClosingSymbol reg (kind (toks ! g))"
    and c: "IsClosingSymbol reg (kind new)"
  shows "brk reg (link_tokens toks g new) rest"
proof -
  let ?n = "length toks" and ?T = "link_tokens toks g new"
  from b have g: "g < ?n" "IsOpeningSymbol reg (kind (toks ! g))" "payload (toks ! g) = PayloadNone"
    "g \<notin> set rest" "distinct rest"
    by (auto simp: brk_def)
  note nth = link_tokens_nth [OF g(1), of _ new]
  have mg: "matched reg ?T g ?n"
    using g k by (simp add: matched_def nth link_tokens_length)
  have keep: "matched reg ?T i j" if m: "matched reg toks i j" for i j
  proof -
    from m g(3) have "i \<noteq> g" "j \<noteq> g" "i < ?n" "j < ?n" by (auto simp: matched_def)
    with m show ?thesis by (simp add: matched_def nth link_tokens_length)
  qed
  show ?thesis
    unfolding brk_def
  proof (intro conjI ballI allI impI)
    show "distinct rest" by (rule g(5))
  next
    fix r assume r: "r \<in> set rest"
    with b g(4) have "r < ?n" "r \<noteq> g" "IsOpeningSymbol reg (kind (toks ! r))" "payload (toks ! r) = PayloadNone"
      by (auto simp: brk_def)
    then show "r < length ?T" "IsOpeningSymbol reg (kind (?T ! r))" "payload (?T ! r) = PayloadNone"
      by (simp_all add: nth link_tokens_length)
  next
    fix i assume i: "i < length ?T" "IsOpeningSymbol reg (kind (?T ! i))"
    then have le: "i \<le> ?n" by (simp add: link_tokens_length)
    consider "i = ?n" | "i = g" | "i \<noteq> ?n" "i \<noteq> g" by blast
    then show "i \<in> set rest \<or> (\<exists>j. matched reg ?T i j)"
    proof cases
      case 1
      with i(2) c opening_not_closing [of reg "kind new"] show ?thesis by (simp add: nth)
    next
      case 2
      with mg show ?thesis by blast
    next
      case 3
      with i le have "i < ?n" "IsOpeningSymbol reg (kind (toks ! i))" by (simp_all add: nth)
      with b 3 have "i \<in> set rest \<or> (\<exists>j. matched reg toks i j)" by (auto simp: brk_def)
      with keep show ?thesis by blast
    qed
  next
    fix j assume j: "j < length ?T" "IsClosingSymbol reg (kind (?T ! j))"
    then have le: "j \<le> ?n" by (simp add: link_tokens_length)
    consider "j = ?n" | "j = g" | "j \<noteq> ?n" "j \<noteq> g" by blast
    then show "\<exists>i. matched reg ?T i j"
    proof cases
      case 1
      with mg show ?thesis by blast
    next
      case 2
      with j(2) g(1,2) opening_not_closing [of reg "kind (toks ! g)"] show ?thesis by (simp add: nth)
    next
      case 3
      with j le have "j < ?n" "IsClosingSymbol reg (kind (toks ! j))" by (simp_all add: nth)
      with b have "\<exists>i. matched reg toks i j" by (auto simp: brk_def)
      with keep show ?thesis by blast
    qed
  qed
qed


lemma close_top_group_tokens:
  assumes "hd (open_groups lx) < length (token_infos (buffer lx))"
  shows "token_infos (buffer (close_top_group reg lx)) =
     link_tokens (token_infos (buffer lx)) (hd (open_groups lx))
       ((NewToken (GetClosingSymbol reg (kind (token_infos (buffer lx) ! hd (open_groups lx))))
           (current_line lx) (current_column lx))\<lparr>is_recovery := True\<rparr>)"
  using assms
  by (simp add: close_top_group_def Let_def link_tokens_def add_token_def AddToken_def
      update_token_info_def EmitError_def set_has_errors_def nth_list_update nth_append)

lemma brackets_inv_close_top_group:
  assumes "brackets_inv reg lx" "group_partners_closing reg" "open_groups lx \<noteq> []"
  shows "brackets_inv reg (close_top_group reg lx)"
proof -
  obtain g rest where og: "open_groups lx = g # rest" using assms(3) by (cases "open_groups lx") auto
  let ?toks = "token_infos (buffer lx)"
  let ?new = "(NewToken (GetClosingSymbol reg (kind (?toks ! g))) (current_line lx) (current_column lx))
      \<lparr>is_recovery := True\<rparr>"
  from assms(1) og have b: "brk reg ?toks (g # rest)" by (simp add: brackets_inv_def)
  then have g: "g < length ?toks" "IsOpeningSymbol reg (kind (?toks ! g))" by (auto simp: brk_def)
  have k: "kind ?new = GetClosingSymbol reg (kind (?toks ! g))" by (simp add: NewToken_def)
  have c: "IsClosingSymbol reg (kind ?new)"
    unfolding k by (rule opening_partner_closing [OF assms(2) g(2)])
  from brk_link [OF b k c] close_top_group_tokens [of lx reg] g(1) og
  show ?thesis by (simp add: brackets_inv_def)
qed

lemma brackets_inv_CloseInvalidOpenGroups:
  assumes "brackets_inv reg lx" "group_partners_closing reg"
  shows "brackets_inv reg (CloseInvalidOpenGroups reg k lx)"
  by (rule CloseInvalidOpenGroups_rule [where P = "brackets_inv reg", OF assms(1)])
    (rule brackets_inv_close_top_group [OF _ assms(2)])

lemma CloseInvalidOpenGroups_stops:
  assumes "IsClosingSymbol reg k \<or> k = Error"
  shows "open_groups (CloseInvalidOpenGroups reg k lx) = [] \<or>
    k = GetClosingSymbol reg (kind (token_infos (buffer (CloseInvalidOpenGroups reg k lx))
          ! hd (open_groups (CloseInvalidOpenGroups reg k lx))))"
proof -
  from assms have "CloseInvalidOpenGroups reg k lx = close_groups_loop reg k lx"
    by (auto simp: CloseInvalidOpenGroups_def)
  with close_groups_loop_stops [of reg k lx] show ?thesis by simp
qed

lemma brackets_inv_fields:
  "token_infos (buffer lx') = token_infos (buffer lx) \<Longrightarrow> open_groups lx' = open_groups lx \<Longrightarrow>
     brackets_inv reg lx' = brackets_inv reg lx"
  by (simp add: brackets_inv_def)

lemma brackets_inv_LexSymbolToken:
  assumes "brackets_inv reg lx" "group_partners_closing reg"
  shows "brackets_inv reg (fst (snd (LexSymbolToken reg lx s)))"
proof (cases "StartsWithSwitch (symbols reg) 0 s = Error")
  case True
  with assms(1) show ?thesis by (simp add: LexSymbolToken_def)
next
  case False
  define k where "k = StartsWithSwitch (symbols reg) 0 s"
  define lx1 where "lx1 = CloseInvalidOpenGroups reg k (capture_indent (current_column lx) lx)"
  define new where "new = NewToken k (current_line lx1) (current_column lx1)"
  let ?toks = "token_infos (buffer lx1)"
  have "brackets_inv reg (capture_indent (current_column lx) lx)"
    using assms(1) by (simp add: brackets_inv_def capture_indent_def update_current_line_info_def)
  then have b1: "brk reg ?toks (open_groups lx1)"
    unfolding lx1_def using brackets_inv_CloseInvalidOpenGroups [OF _ assms(2)]
    by (simp add: brackets_inv_def)
  have kn: "kind new = k" "payload new = PayloadNone" by (simp_all add: new_def NewToken_def)
  consider (op) "IsOpeningSymbol reg k"
    | (plain) "\<not> IsOpeningSymbol reg k" "\<not> IsClosingSymbol reg k"
    | (un) "IsClosingSymbol reg k" "open_groups lx1 = []"
    | (cl) "IsClosingSymbol reg k" "open_groups lx1 \<noteq> []"
    using opening_not_closing by blast
  then show ?thesis
  proof cases
    case op
    from brk_append_opening [OF b1, of new] op kn
    have "brk reg (?toks @ [new]) (length ?toks # open_groups lx1)" by simp
    with False op show ?thesis
      by (simp add: LexSymbolToken_def Let_def brackets_inv_def k_def [symmetric] lx1_def [symmetric]
          new_def [symmetric] advance_def add_token_def AddToken_def)
  next
    case plain
    from brk_append_plain [OF b1, of new] plain kn
    have "brk reg (?toks @ [new]) (open_groups lx1)" by simp
    with False plain show ?thesis
      by (simp add: LexSymbolToken_def Let_def brackets_inv_def k_def [symmetric] lx1_def [symmetric]
          new_def [symmetric] advance_def add_token_def AddToken_def)
  next
    case un
    let ?err = "new\<lparr>kind := Error, payload := PayloadErrorLength (length (GetFixedSpelling reg k))\<rparr>"
    from brk_append_plain [OF b1, of ?err]
    have "brk reg (?toks @ [?err]) (open_groups lx1)" by (simp add: structural_not_group)
    with False un opening_not_closing [of reg k] show ?thesis
      by (auto simp add: LexSymbolToken_def Let_def brackets_inv_def k_def [symmetric] lx1_def [symmetric]
          new_def [symmetric] advance_def add_token_def AddToken_def update_token_info_def
          EmitError_def set_has_errors_def)
  next
    case cl
    then obtain g rest where og: "open_groups lx1 = g # rest" by (cases "open_groups lx1") auto
    from b1 og have g: "g < length ?toks" by (auto simp: brk_def)
    from CloseInvalidOpenGroups_stops [of reg k "capture_indent (current_column lx) lx"] cl og
    have "k = GetClosingSymbol reg (kind (?toks ! g))" by (simp add: lx1_def)
    with brk_link [of reg ?toks g rest new] b1 og kn cl(1)
    have "brk reg (link_tokens ?toks g new) rest" by simp
    with False cl og g opening_not_closing [of reg k] show ?thesis
      by (auto simp add: LexSymbolToken_def Let_def brackets_inv_def k_def [symmetric] lx1_def [symmetric]
          new_def [symmetric] advance_def add_token_def AddToken_def update_token_info_def
          link_tokens_def nth_list_update nth_append)
  qed
qed

lemma CaseSwitch_kind: "CaseSwitch ss i t = Error \<or> (\<exists>j. CaseSwitch ss i t = Keyword j)"
  by (induction ss arbitrary: i) auto

lemma LexToken_plain_token:
  assumes "StartsWithSwitch (symbols reg) 0 s = Error" "LexToken reg lx s = Inr (lx', s')"
  shows "\<exists>t. token_infos (buffer lx') = token_infos (buffer lx) @ [t]
           \<and> \<not> IsOpeningSymbol reg (kind t) \<and> \<not> IsClosingSymbol reg (kind t)
           \<and> open_groups lx' = open_groups lx"
proof (cases rule: LexToken_cases [where reg = reg and s = s and lx = lx])
  case symbol
  with assms show ?thesis by simp
next
  case word
  let ?k = "CaseSwitch (keyword_spellings reg) 0 (takeWhile isWordChar s)"
  from word(3) assms(2) have l: "lx' = fst (snd (LexKeywordOrIdentifier reg lx s))" by simp
  from CaseSwitch_kind [of "keyword_spellings reg" 0 "takeWhile isWordChar s"]
  have "\<not> IsOpeningSymbol reg ?k \<and> \<not> IsClosingSymbol reg ?k" by (auto simp: structural_not_group)
  with word(2) show ?thesis unfolding l
    by (auto simp: LexKeywordOrIdentifier_def Let_def capture_indent_def update_current_line_info_def
        advance_def add_token_def AddToken_def NewToken_def GetOrCreateIdentifier_def
        structural_not_group split: option.splits)
next
  case (int l)
  from int(5) assms(2) have l: "l = lx'" by simp
  from LexIntegerLiteral_lexer [OF int(4)] obtain lx2 v where
    d: "diag_only (capture_indent (current_column lx) (advance (length (TakeLeadingIntegerLiteral s)) lx)) lx2"
    and r: "l = add_error_token_and_continue_lexing (current_column lx)
                  (length (TakeLeadingIntegerLiteral s)) lx2
       \<or> l = add_integer_token (current_column lx) v lx2" by blast
  from d have "token_infos (buffer lx2) = token_infos (buffer lx)" "open_groups lx2 = open_groups lx"
    by (simp_all add: diag_only_def capture_indent_def update_current_line_info_def advance_def)
  with r l show ?thesis
    by (auto simp: add_error_token_and_continue_lexing_def add_integer_token_def Let_def add_token_def
        AddToken_def NewToken_def set_has_errors_def structural_not_group)
next
  case abort
  with assms(2) show ?thesis by simp
next
  case err
  from err(4) assms(2) have l: "lx' = fst (LexError reg lx s)" by (cases "LexError reg lx s") simp
  show ?thesis unfolding l
    by (simp add: LexError_def Let_def advance_def add_token_def AddToken_def NewToken_def
        set_has_errors_def structural_not_group)
qed

lemma brackets_inv_LexToken:
  assumes "brackets_inv reg lx" "group_partners_closing reg" "LexToken reg lx s = Inr (lx', s')"
  shows "brackets_inv reg lx'"
proof (cases "StartsWithSwitch (symbols reg) 0 s = Error")
  case True
  from LexToken_plain_token [OF True assms(3)] obtain t where
    "token_infos (buffer lx') = token_infos (buffer lx) @ [t]"
    "\<not> IsOpeningSymbol reg (kind t)" "\<not> IsClosingSymbol reg (kind t)"
    "open_groups lx' = open_groups lx" by blast
  with brk_append_plain [of reg "token_infos (buffer lx)" "open_groups lx" t] assms(1)
  show ?thesis by (simp add: brackets_inv_def)
next
  case False
  with assms(3) have "lx' = fst (snd (LexSymbolToken reg lx s))"
    by (cases rule: LexToken_cases [where reg = reg and s = s and lx = lx]) simp_all
  with brackets_inv_LexSymbolToken [OF assms(1,2)] show ?thesis by simp
qed

lemma brackets_inv_SkipWhitespace:
  assumes "brackets_inv reg lx" "SkipWhitespace lx s = (b, lx', s')"
  shows "brackets_inv reg lx'"
proof -
  have fin: "brackets_inv reg (set_line_length l)" if "brackets_inv reg l" for l
    using that by (simp add: brackets_inv_def set_line_length_def update_current_line_info_def)
  have com: "brackets_inv reg (fst (SkipComment l t))" if "brackets_inv reg l" for l t
  proof (cases "prefix ''//'' t \<and> \<not> set_indent l \<and> prefix ''///'' t")
    case True
    from brk_append_plain [of reg "token_infos (buffer l)" "open_groups l"
        "NewToken DocComment (current_line l) (current_column l)"] that
    have "brk reg (token_infos (buffer l) @ [NewToken DocComment (current_line l) (current_column l)])
        (open_groups l)" by (simp add: brackets_inv_def NewToken_def structural_not_group)
    with True show ?thesis
      by (simp add: brackets_inv_def SkipComment_def Let_def advance_def add_token_def AddToken_def
          update_current_line_info_def)
  next
    case False
    with that show ?thesis
      by (auto simp: brackets_inv_def SkipComment_def Let_def advance_def)
  qed
  have nl: "brackets_inv reg (start_next_line (set_line_length l))" if "brackets_inv reg l" for l
    using that by (simp add: brackets_inv_def set_line_length_def update_current_line_info_def
        start_next_line_def AddLine_def Let_def)
  have ws: "brackets_inv reg (advance 1 l)" if "brackets_inv reg l" for l
    using that by (simp add: brackets_inv_def advance_def)
  show ?thesis
    by (rule SkipWhitespace_rule [where P = "\<lambda>l _. brackets_inv reg l" and R = "\<lambda>l _. brackets_inv reg l"
          and Q = "\<lambda>_ l _. brackets_inv reg l", OF assms(1) fin com fin fin nl ws _ assms(2)])
qed


lemma LexSymbolToken_unmatched:
  assumes "IsClosingSymbol reg (StartsWithSwitch (symbols reg) 0 s)"
    and "open_groups (CloseInvalidOpenGroups reg (StartsWithSwitch (symbols reg) 0 s)
           (capture_indent (current_column lx) lx)) = []"
  shows "token_infos (buffer (fst (snd (LexSymbolToken reg lx s)))) \<noteq> []
    \<and> kind (last (token_infos (buffer (fst (snd (LexSymbolToken reg lx s)))))) = Error
    \<and> payload (last (token_infos (buffer (fst (snd (LexSymbolToken reg lx s)))))) =
        PayloadErrorLength (length (GetFixedSpelling reg (StartsWithSwitch (symbols reg) 0 s)))"
proof -
  from assms(1) have "StartsWithSwitch (symbols reg) 0 s \<noteq> Error"
    by (auto simp: structural_not_group)
  with assms opening_not_closing [of reg "StartsWithSwitch (symbols reg) 0 s"] show ?thesis
    by (auto simp: LexSymbolToken_def Let_def advance_def add_token_def AddToken_def
        update_token_info_def EmitError_def set_has_errors_def)
qed

text \<open>
  C1: when \<open>Lex\<close> returns, the stack of open groups is empty, every token whose kind is
  an opening symbol names a later token of the matching closing kind that names it back,
  and every token whose kind is a closing symbol names an earlier opening token that
  names it back (the closing token may be a recovery token); and a closing symbol that
  meets an empty stack after reconciliation is rewritten to the \<open>Error\<close> kind. It holds
  with every table whose spellings are non-empty and whose opening symbols declare a
  closing symbol as partner, for every run that returns a buffer (a run that reaches the
  unreachable mark of the integer strategy returns none).
\<close>

theorem Lex_brackets_matched:
  assumes "nonempty_spellings reg" "group_partners_closing reg"
    and "LexRun reg source = Some (Inr lx)"
  shows "open_groups lx = []
      \<and> (\<forall>i < length (token_infos (buffer lx)).
            IsOpeningSymbol reg (kind (token_infos (buffer lx) ! i)) \<longrightarrow>
            (\<exists>j. GetMatchedClosingToken (buffer lx) i = Some j \<and> i < j
                \<and> j < length (token_infos (buffer lx))
                \<and> IsClosingSymbol reg (kind (token_infos (buffer lx) ! j))
                \<and> kind (token_infos (buffer lx) ! j) =
                    GetClosingSymbol reg (kind (token_infos (buffer lx) ! i))
                \<and> GetMatchedOpeningToken (buffer lx) j = Some i))
      \<and> (\<forall>j < length (token_infos (buffer lx)).
            IsClosingSymbol reg (kind (token_infos (buffer lx) ! j)) \<longrightarrow>
            (\<exists>i. GetMatchedOpeningToken (buffer lx) j = Some i \<and> i < j
                \<and> IsOpeningSymbol reg (kind (token_infos (buffer lx) ! i))
                \<and> kind (token_infos (buffer lx) ! j) =
                    GetClosingSymbol reg (kind (token_infos (buffer lx) ! i))
                \<and> GetMatchedClosingToken (buffer lx) i = Some j))
      \<and> (\<forall>l s. IsClosingSymbol reg (StartsWithSwitch (symbols reg) 0 s)
          \<and> open_groups (CloseInvalidOpenGroups reg (StartsWithSwitch (symbols reg) 0 s)
               (capture_indent (current_column l) l)) = [] \<longrightarrow>
          token_infos (buffer (fst (snd (LexSymbolToken reg l s)))) \<noteq> []
          \<and> kind (last (token_infos (buffer (fst (snd (LexSymbolToken reg l s)))))) = Error)"
proof -
  have init: "brackets_inv reg InitLexer"
    by (simp add: brackets_inv_def brk_def InitLexer_def AddLine_def EmptyBuffer_def)
  have skip: "brackets_inv reg l'" if "brackets_inv reg l" "SkipWhitespace l t = (b, l', t')" for l t b l' t'
    using that by (rule brackets_inv_SkipWhitespace)
  have tok: "brackets_inv reg l'"
    if "brackets_inv reg l" "t \<noteq> []" "hd t \<noteq> newline" "hd t \<noteq> CHR '' ''" "hd t \<noteq> tab"
      "LexToken reg l t = Inr (l', t')" for l t l' t'
    using brackets_inv_LexToken [OF that(1) assms(2) that(6)] .
  from LexRun_Inr [OF assms(3)] obtain lx' where
    r: "LexLoop reg InitLexer source = Some (Inr lx')" and lx_def: "lx = CloseInvalidOpenGroups reg Error lx'"
    by blast
  have "\<exists>s' :: string. brackets_inv reg lx'"
    by (rule LexLoop_rule [where I = "\<lambda>l _. brackets_inv reg l" and J = "\<lambda>_ l _. brackets_inv reg l",
          OF assms(1) init skip tok r])
  then have inv: "brackets_inv reg lx'" by simp
  let ?toks = "token_infos (buffer lx)"
  have b: "brk reg ?toks (open_groups lx)"
    using brackets_inv_CloseInvalidOpenGroups [OF inv assms(2), of Error]
    by (simp add: brackets_inv_def lx_def)
  have og: "open_groups lx = []"
  proof (rule ccontr)
    assume ne: "open_groups lx \<noteq> []"
    then have "hd (open_groups lx) \<in> set (open_groups lx)" by simp
    with b have "IsOpeningSymbol reg (kind (?toks ! hd (open_groups lx)))" by (simp add: brk_def)
    from opening_partner_not_Error [OF this] CloseInvalidOpenGroups_stops [of reg Error lx'] ne
    show False by (simp add: lx_def)
  qed
  have op: "\<exists>j. GetMatchedClosingToken (buffer lx) i = Some j \<and> i < j \<and> j < length ?toks
                \<and> IsClosingSymbol reg (kind (?toks ! j))
                \<and> kind (?toks ! j) = GetClosingSymbol reg (kind (?toks ! i))
                \<and> GetMatchedOpeningToken (buffer lx) j = Some i"
    if "i < length ?toks" "IsOpeningSymbol reg (kind (?toks ! i))" for i
  proof -
    from b og that obtain j where "matched reg ?toks i j" by (auto simp: brk_def)
    with opening_partner_closing [OF assms(2) that(2)] show ?thesis
      by (auto simp: matched_def GetMatchedClosingToken_def GetMatchedOpeningToken_def)
  qed
  have cl: "\<exists>i. GetMatchedOpeningToken (buffer lx) j = Some i \<and> i < j
                \<and> IsOpeningSymbol reg (kind (?toks ! i))
                \<and> kind (?toks ! j) = GetClosingSymbol reg (kind (?toks ! i))
                \<and> GetMatchedClosingToken (buffer lx) i = Some j"
    if "j < length ?toks" "IsClosingSymbol reg (kind (?toks ! j))" for j
  proof -
    from b that obtain i where "matched reg ?toks i j" by (auto simp: brk_def)
    then show ?thesis
      by (auto simp: matched_def GetMatchedClosingToken_def GetMatchedOpeningToken_def)
  qed
  have um: "token_infos (buffer (fst (snd (LexSymbolToken reg l s)))) \<noteq> []
          \<and> kind (last (token_infos (buffer (fst (snd (LexSymbolToken reg l s)))))) = Error"
    if "IsClosingSymbol reg (StartsWithSwitch (symbols reg) 0 s)
          \<and> open_groups (CloseInvalidOpenGroups reg (StartsWithSwitch (symbols reg) 0 s)
               (capture_indent (current_column l) l)) = []" for l s
    using LexSymbolToken_unmatched [of reg s l] that by simp
  from og op cl um show ?thesis by blast
qed

theorem Lex_brackets_matched_witness:
  "nonempty_spellings SampleRegistry \<and> group_partners_closing SampleRegistry
   \<and> (\<exists>lx. LexRun SampleRegistry ''{(}]'' = Some (Inr lx) \<and> open_groups lx = []
        \<and> map kind (token_infos (buffer lx)) = [Symbol 4, Symbol 0, Symbol 1, Symbol 5, Error]
        \<and> GetMatchedClosingToken (buffer lx) 0 = Some 3
        \<and> GetMatchedClosingToken (buffer lx) 1 = Some 2
        \<and> GetMatchedOpeningToken (buffer lx) 2 = Some 1
        \<and> GetMatchedOpeningToken (buffer lx) 4 = None)"
proof -
  have a: "nonempty_spellings SampleRegistry"
    by (simp add: nonempty_spellings_def SampleRegistry_def)
  have b: "group_partners_closing SampleRegistry"
    by (simp add: group_partners_closing_def SampleRegistry_def IsClosingSymbol_def GroupRoleOf_def)
  have e: "map_option (map_sum id (\<lambda>lx. (map kind (token_infos (buffer lx)),
        GetMatchedClosingToken (buffer lx) 0, GetMatchedClosingToken (buffer lx) 1,
        GetMatchedOpeningToken (buffer lx) 2, GetMatchedOpeningToken (buffer lx) 4)))
      (LexRun SampleRegistry ''{(}]'') =
     Some (Inr ([Symbol 4, Symbol 0, Symbol 1, Symbol 5, Error], Some 3, Some 2, Some 1, None))"
    by (simp add: lexer_eval SampleRegistry_def GetMatchedClosingToken_def GetMatchedOpeningToken_def)
  then obtain lx where r: "LexRun SampleRegistry ''{(}]'' = Some (Inr lx)"
    by (cases "LexRun SampleRegistry ''{(}]''"; cases "the (LexRun SampleRegistry ''{(}]'')") auto
  from Lex_brackets_matched [OF a b r] have og: "open_groups lx = []" by blast
  from e r have t:
    "map kind (token_infos (buffer lx)) = [Symbol 4, Symbol 0, Symbol 1, Symbol 5, Error]"
    "GetMatchedClosingToken (buffer lx) 0 = Some 3"
    "GetMatchedClosingToken (buffer lx) 1 = Some 2"
    "GetMatchedOpeningToken (buffer lx) 2 = Some 1"
    "GetMatchedOpeningToken (buffer lx) 4 = None" by simp_all
  show ?thesis by (intro conjI exI [of _ lx]) (rule a b r og t)+
qed

end
